theory Spec2Isabelle
  imports Complex_Main "HOL-Library.Log_Nat"
begin

section \<open>Numbers\<close>

text \<open>
  The source computes with IEEE doubles. The model computes with exact reals: a finite
  double is the real number it denotes, and arithmetic on finite values is exact (no
  rounding error, no overflow). The non-finite values are kept apart in \<open>jsnum\<close> and
  appear exactly where the source can produce one from finite operands, which in exact
  arithmetic is a division by zero. Signed zeros are not distinguished.
  Array lengths and indices are natural numbers. The shift operator works on 32-bit
  integers and is modelled with its wrap-around.
\<close>

datatype jsnum = Num real | NaN | PosInf | NegInf

text \<open>
  How a call ends: with a value, with an exception, or not at all. The only exception the
  modelled code can raise is a \<open>RangeError\<close>.
\<close>

datatype js_error = RangeError

datatype 'a outcome = Returns 'a | Throws js_error | NeverReturns

text \<open>
  \<open>ToInt32\<close> of an integer, and \<open>x << k\<close>: the left operand is taken as a signed 32-bit
  integer, the shift count modulo 32, and the result is again a signed 32-bit integer.
\<close>

definition wrap32 :: "int \<Rightarrow> int" where
  "wrap32 x = (x + 2 ^ 31) mod 2 ^ 32 - 2 ^ 31"

definition js_shl :: "int \<Rightarrow> nat \<Rightarrow> int" where
  "js_shl x k = wrap32 (wrap32 x * 2 ^ (k mod 32))"

text \<open>\<open>a / b\<close> on finite operands.\<close>

definition js_div :: "real \<Rightarrow> real \<Rightarrow> jsnum" where
  "js_div a b =
     (if b \<noteq> 0 then Num (a / b)
      else if a = 0 then NaN
      else if 0 < a then PosInf else NegInf)"

text \<open>\<open>a > b\<close>: every comparison with NaN is false.\<close>

fun js_gt :: "jsnum \<Rightarrow> jsnum \<Rightarrow> bool" where
  "js_gt NaN _ = False"
| "js_gt _ NaN = False"
| "js_gt (Num a) (Num b) = (b < a)"
| "js_gt (Num _) PosInf = False"
| "js_gt (Num _) NegInf = True"
| "js_gt PosInf PosInf = False"
| "js_gt PosInf _ = True"
| "js_gt NegInf _ = False"

section \<open>Small math helpers\<close>

text \<open>\<open>for (let i = 1; i < arr.length; i++) out.push(arr[i] - arr[i - 1])\<close>\<close>

definition diffs_js :: "real list \<Rightarrow> real list" where
  "diffs_js arr = map (\<lambda>i. arr ! i - arr ! (i - 1)) [1..<length arr]"

text \<open>\<open>arr.length ? arr.reduce((s, x) => s + x, 0) / arr.length : 0\<close>\<close>

definition mean :: "real list \<Rightarrow> real" where
  "mean arr =
     (if length arr \<noteq> 0 then foldl (\<lambda>s x. s + x) 0 arr / real (length arr) else 0)"

text \<open>The copy sorted with the comparator \<open>(a, b) => a - b\<close> is the ascending sort.\<close>

definition median :: "real list \<Rightarrow> real" where
  "median arr =
     (if length arr = 0 then 0
      else let tmp = sort arr; m = length tmp div 2
           in if length tmp mod 2 \<noteq> 0 then tmp ! m else (tmp ! (m - 1) + tmp ! m) / 2)"

definition variance :: "real list \<Rightarrow> real" where
  "variance arr =
     (if length arr < 2 then 0
      else let m = mean arr;
               s = foldl (\<lambda>s x. s + (x - m) * (x - m)) 0 arr
           in s / (real (length arr) - 1))"

definition stddev :: "real list \<Rightarrow> real" where
  "stddev arr = sqrt (max 0 (variance arr))"

text \<open>
  \<open>idx = Math.min(tmp.length - 1, Math.max(0, Math.floor(p * (tmp.length - 1))))\<close>;
  \<open>p\<close> is a finite number.
\<close>

definition percentile_index :: "nat \<Rightarrow> real \<Rightarrow> int" where
  "percentile_index n p = min (int n - 1) (max 0 \<lfloor>p * (real n - 1)\<rfloor>)"

definition percentile :: "real list \<Rightarrow> real \<Rightarrow> real" where
  "percentile arr p =
     (if length arr = 0 then 0
      else let tmp = sort arr
           in tmp ! nat (percentile_index (length tmp) p))"

definition arraySub :: "real list \<Rightarrow> real list \<Rightarrow> real list" where
  "arraySub a b = (let n = min (length a) (length b) in map (\<lambda>i. a ! i - b ! i) [0..<n])"

record summary =
  sum_mean :: real
  sum_median :: real
  sum_std :: real
  sum_p90 :: real

definition summarize :: "real list \<Rightarrow> summary" where
  "summarize arr =
     \<lparr> sum_mean = mean arr, sum_median = median arr, sum_std = stddev arr,
       sum_p90 = percentile arr (9 / 10) \<rparr>"

definition centerZ :: "real list \<Rightarrow> real list" where
  "centerZ arr = (let m = mean arr in map (\<lambda>x. x - m) arr)"

text \<open>\<open>b ? a / b : 0\<close> on finite operands: zero is the only falsy finite number.\<close>

definition safeDiv :: "real \<Rightarrow> real \<Rightarrow> real" where
  "safeDiv a b = (if b \<noteq> 0 then a / b else 0)"

text \<open>
  \<open>Number.isFinite(x) ? Number(x.toFixed(d)) : 0\<close>. For a finite \<open>x\<close> below \<open>10^21\<close> in
  magnitude \<open>toFixed\<close> takes the sign off, picks the integer \<open>n\<close> with \<open>n / 10^d\<close> closest
  to \<open>x\<close> (the larger one of two) and prints \<open>n / 10^d\<close> with the sign; from \<open>10^21\<close> on
  it prints the number itself.
\<close>

definition toFixed :: "real \<Rightarrow> nat \<Rightarrow> real" where
  "toFixed x d =
     (let a = (if x < 0 then - x else x);
          r = (if 10 ^ 21 \<le> a then a else of_int \<lfloor>a * 10 ^ d + 1 / 2\<rfloor> / 10 ^ d)
      in if x < 0 then - r else r)"

definition round_js :: "jsnum \<Rightarrow> nat \<Rightarrow> real" where
  "round_js x d = (case x of Num r \<Rightarrow> toFixed r d | _ \<Rightarrow> 0)"

function argmax_loop :: "jsnum list \<Rightarrow> nat \<Rightarrow> nat \<Rightarrow> nat" where
  "argmax_loop arr i maxIndex =
     (if i < length arr
      then argmax_loop arr (i + 1) (if js_gt (arr ! i) (arr ! maxIndex) then i else maxIndex)
      else maxIndex)"
  by pat_completeness auto
termination
  by (relation "measure (\<lambda>(arr, i, maxIndex). length arr - i)") auto

definition argmax :: "jsnum list \<Rightarrow> nat" where
  "argmax arr = argmax_loop arr 1 0"

section \<open>Autocorrelation\<close>

text \<open>
  \<open>variance(arr) || 1e-12\<close> replaces a zero variance. \<open>maxLag\<close> is a natural number, as
  \<open>new Array(maxLag + 1)\<close> needs. \<open>n - lag\<close> is a subtraction of numbers and is zero or
  negative from \<open>lag = n\<close> on, where the inner loop adds nothing.
\<close>

definition autocorr :: "real list \<Rightarrow> nat \<Rightarrow> jsnum list" where
  "autocorr arr maxLag =
     (let n = length arr;
          varX = (if variance arr \<noteq> 0 then variance arr else 1 / 10 ^ 12)
      in map (\<lambda>lag. js_div (foldl (\<lambda>s i. s + arr ! i * arr ! (i - lag)) 0 [lag..<n])
                            ((real n - real lag) * varX))
             [0..<maxLag + 1])"

section \<open>Spectrum\<close>

type_synonym arrays = "real list \<times> real list"

definition swap :: "real list \<Rightarrow> nat \<Rightarrow> nat \<Rightarrow> real list" where
  "swap xs i j = (let t = xs ! i in (xs[i := xs ! j])[j := t])"

text \<open>\<open>while (m >= 1 && j >= m) { j -= m; m >>= 1; }\<close>\<close>

function bitrev_carry :: "nat \<Rightarrow> nat \<Rightarrow> nat \<times> nat" where
  "bitrev_carry m j = (if 1 \<le> m \<and> m \<le> j then bitrev_carry (m div 2) (j - m) else (m, j))"
  by pat_completeness auto
termination
  by (relation "measure (\<lambda>(m, j). m)") auto

definition bitrev_step :: "nat \<Rightarrow> nat \<times> arrays \<Rightarrow> nat \<Rightarrow> nat \<times> arrays" where
  "bitrev_step n st i =
     (case st of (j, re, im) \<Rightarrow>
        let (re1, im1) = (if i < j then (swap re i j, swap im i j) else (re, im));
            (m, j1) = bitrev_carry (n div 2) j
        in (j1 + m, re1, im1))"

definition bit_reversal :: "arrays \<Rightarrow> arrays" where
  "bit_reversal a = (let n = length (fst a) in snd (foldl (bitrev_step n) (0, a) [0..<n]))"

text \<open>One pass of the innermost loop; \<open>len\<close> is even, so \<open>len / 2\<close> is \<open>len div 2\<close>.\<close>

definition butterfly ::
  "nat \<Rightarrow> nat \<Rightarrow> real \<Rightarrow> real \<Rightarrow> real \<times> real \<times> arrays \<Rightarrow> nat \<Rightarrow> real \<times> real \<times> arrays" where
  "butterfly len i wlenRe wlenIm st j =
     (case st of (wRe, wIm, re, im) \<Rightarrow>
        let h = len div 2;
            uRe = re ! (i + j);
            uIm = im ! (i + j);
            vRe = re ! (i + j + h) * wRe - im ! (i + j + h) * wIm;
            vIm = re ! (i + j + h) * wIm + im ! (i + j + h) * wRe;
            re1 = (re[i + j := uRe + vRe])[i + j + h := uRe - vRe];
            im1 = (im[i + j := uIm + vIm])[i + j + h := uIm - vIm];
            tRe = wRe * wlenRe - wIm * wlenIm;
            tIm = wRe * wlenIm + wIm * wlenRe
        in (tRe, tIm, re1, im1))"

text \<open>
  \<open>for (let i = 0; i < n; i += len)\<close>, run for a positive \<open>len\<close> only; the test
  \<open>0 < len\<close> makes the function total.
\<close>

function block_loop :: "nat \<Rightarrow> nat \<Rightarrow> real \<Rightarrow> real \<Rightarrow> nat \<Rightarrow> arrays \<Rightarrow> arrays" where
  "block_loop n len wlenRe wlenIm i a =
     (if i < n \<and> 0 < len
      then block_loop n len wlenRe wlenIm (i + len)
             (snd (snd (foldl (butterfly len i wlenRe wlenIm) (1, 0, a) [0..<len div 2])))
      else a)"
  by pat_completeness auto
termination
  by (relation "measure (\<lambda>(n, len, wlenRe, wlenIm, i, a). n - i)") auto

text \<open>What is left of the loop over \<open>len\<close>, for its termination.\<close>

definition stage_rank :: "int \<Rightarrow> nat" where
  "stage_rank len =
     (if len \<le> 0 then 0 else if len < 2 ^ 31 then nat (2 ^ 31 - len) else 2 ^ 31 + 1)"

text \<open>
  \<open>for (let len = 2; len <= n; len <<= 1)\<close>. The shift wraps: after \<open>2^30\<close> comes
  \<open>-2^31\<close>. With a \<open>len\<close> that is not positive and still at most \<open>n\<close> the loops never
  end: \<open>i\<close> does not grow in the loop over \<open>i\<close>, and \<open>len\<close> stays at most \<open>n\<close>. The
  call does not return, which is \<open>None\<close>.
\<close>

function stage_loop :: "nat \<Rightarrow> int \<Rightarrow> arrays \<Rightarrow> arrays option" where
  "stage_loop n len a =
     (if len \<le> int n
      then (if len \<le> 0 then None
            else stage_loop n (js_shl len 1)
                   (let ang = (- 2 * pi) / real_of_int len
                    in block_loop n (nat len) (cos ang) (sin ang) 0 a))
      else Some a)"
  by pat_completeness auto
termination
proof (relation "measure (\<lambda>(n, len, a). stage_rank len)")
  show "wf (measure (\<lambda>(n :: nat, len :: int, a :: arrays). stage_rank len))"
    by simp
next
  fix n :: nat and len :: int and a :: arrays
  assume "len \<le> int n" and pos: "\<not> len \<le> 0"
  define len' where "len' = js_shl len 1"
  have lo: "0 \<le> (wrap32 len * 2 + 2 ^ 31) mod 2 ^ 32" by simp
  have hi: "(wrap32 len * 2 + 2 ^ 31) mod 2 ^ 32 < 2 ^ 32" by simp
  have r2: "len' < 2 ^ 31"
    using lo hi unfolding len'_def js_shl_def wrap32_def [of "wrap32 len * 2 ^ (1 mod 32)"]
    by simp
  have small: "len < len'" if lt: "len < 2 ^ 31" and p: "0 < len'"
  proof -
    have w: "wrap32 len = len"
      unfolding wrap32_def using pos lt by (simp add: mod_pos_pos_trivial)
    have l2: "len' = (2 * len + 2 ^ 31) mod 2 ^ 32 - 2 ^ 31"
      unfolding len'_def js_shl_def w by (simp add: wrap32_def mult.commute)
    show "len < len'"
    proof (cases "2 * len < 2 ^ 31")
      case True
      then have "(2 * len + 2 ^ 31) mod 2 ^ 32 = 2 * len + 2 ^ 31"
        using pos by (intro mod_pos_pos_trivial) simp_all
      then show ?thesis using l2 pos by simp
    next
      case False
      have "(2 * len + 2 ^ 31) mod 2 ^ 32 = (2 * len + 2 ^ 31 - 2 ^ 32) mod 2 ^ 32"
        by (metis minus_mod_self2)
      also have "\<dots> = 2 * len + 2 ^ 31 - 2 ^ 32"
        using False lt by (intro mod_pos_pos_trivial) simp_all
      finally have "len' = 2 * len - 2 ^ 32" using l2 by simp
      then have "len' < 0" using lt by simp
      then show ?thesis using p by simp
    qed
  qed
  have main: "stage_rank len' < stage_rank len"
  proof (cases "len' \<le> 0")
    case True
    then show ?thesis using pos by (simp add: stage_rank_def)
  next
    case False
    show ?thesis
    proof (cases "len < 2 ^ 31")
      case True
      then have "len < len'" using small False by simp
      then show ?thesis using pos False r2 True by (simp add: stage_rank_def)
    next
      case False2: False
      then show ?thesis using pos False r2 by (simp add: stage_rank_def)
    qed
  qed
  show "((n, js_shl len 1,
          let ang = (- 2 * pi) / real_of_int len
          in block_loop n (nat len) (cos ang) (sin ang) 0 a),
         (n, len, a)) \<in> measure (\<lambda>(n, len, a). stage_rank len)"
    using main unfolding len'_def by simp
qed

text \<open>
  \<open>fft\<close> is called on arrays of at most \<open>2^30\<close> entries, where \<open>n >> 1\<close> in the bit
  reversal is \<open>n div 2\<close>.
\<close>

definition fft :: "arrays \<Rightarrow> arrays option" where
  "fft a = (let n = length (fst a) in stage_loop n 2 (bit_reversal a))"

text \<open>
  \<open>n = 1 << Math.ceil(Math.log2(Math.max(2, arr.length)))\<close>, a 32-bit shift: from a
  count of 31 on the result is not the power of two.
\<close>

definition fft_size :: "nat \<Rightarrow> int" where
  "fft_size len = js_shl 1 (nat \<lceil>log 2 (real (max 2 len))\<rceil>)"

text \<open>
  \<open>new Float64Array(n)\<close> throws a \<open>RangeError\<close> for a negative \<open>n\<close>, and \<open>re.set(arr)\<close>
  throws one when \<open>arr\<close> is longer than \<open>re\<close>. Otherwise \<open>re\<close> is \<open>arr\<close> followed by zeros,
  \<open>im\<close> is all zeros, and \<open>mag[0]\<close> keeps the zero the array was created with.
\<close>

definition magnitudeFFT :: "real list \<Rightarrow> real list outcome" where
  "magnitudeFFT arr =
     (let n = fft_size (length arr)
      in if n < 0 then Throws RangeError
         else if n < int (length arr) then Throws RangeError
         else let re = arr @ replicate (nat n - length arr) 0;
                  im = replicate (nat n) 0
              in case fft (re, im) of
                   None \<Rightarrow> NeverReturns
                 | Some (re1, im1) \<Rightarrow>
                     Returns (map (\<lambda>k. if k = 0 then 0
                                       else sqrt ((re1 ! k)\<^sup>2 + (im1 ! k)\<^sup>2))
                                [0..<nat n div 2]))"

function dominant_loop :: "real list \<Rightarrow> nat \<Rightarrow> nat \<times> real \<Rightarrow> nat \<times> real" where
  "dominant_loop mag k (bestK, best) =
     (if k < length mag
      then dominant_loop mag (k + 1) (if best < mag ! k then (k, mag ! k) else (bestK, best))
      else (bestK, best))"
  by pat_completeness auto
termination
  by (relation "measure (\<lambda>(mag, k, b). length mag - k)") auto

record peak =
  pk_freq :: jsnum
  pk_strength :: jsnum

definition dominantFrequency :: "real list \<Rightarrow> real \<Rightarrow> peak" where
  "dominantFrequency mag nominalFps =
     (let N = length mag * 2;
          sampleRate = (if nominalFps \<noteq> 0 then nominalFps else 30);
          (bestK, best) = dominant_loop mag 1 (0, 0);
          freq = js_div (real bestK * sampleRate) (real N);
          norm = js_div best (foldl (\<lambda>s x. s + x) 0 mag + 1 / 10 ^ 9)
      in \<lparr> pk_freq = freq, pk_strength = norm \<rparr>)"

section \<open>Sampling\<close>

text \<open>
  One record for each callback the platform delivers: the timestamp it passes, what
  \<open>performance.now()\<close> and \<open>video.currentTime\<close> read inside \<open>stamp\<close>, and what the test
  for going on reads. All are finite numbers. A sampler that is left waiting for a callback
  that never comes does not resolve: \<open>None\<close>.
\<close>

record frame_event =
  cb_now :: real
  stamp_now :: real
  current_time :: real
  check_now :: real
  video_ended :: bool
  doc_visible :: bool

type_synonym batch = "real list \<times> real list"

definition stamp :: "frame_event \<Rightarrow> batch \<Rightarrow> batch" where
  "stamp e b =
     (case b of (samples, vtimes) \<Rightarrow>
        (samples @ [stamp_now e],
         vtimes @ [if current_time e \<noteq> 0 then current_time e else 0]))"

fun sampleWithRVFC :: "real \<Rightarrow> frame_event list \<Rightarrow> batch \<Rightarrow> batch option" where
  "sampleWithRVFC endBy [] b = None"
| "sampleWithRVFC endBy (e # es) b =
     (let b1 = stamp e b
      in if check_now e < endBy \<and> \<not> video_ended e then sampleWithRVFC endBy es b1
         else Some b1)"

text \<open>\<open>now - last >= (1000 / targetFps) * 0.8\<close>, with \<open>prev\<close> for the variable \<open>last\<close>\<close>

definition throttle_open :: "real \<Rightarrow> real \<Rightarrow> real \<Rightarrow> bool" where
  "throttle_open targetFps now prev =
     (case js_div 1000 targetFps of
        Num q \<Rightarrow> q * (8 / 10) \<le> now - prev
      | NegInf \<Rightarrow> True
      | _ \<Rightarrow> False)"

fun sampleWithRAF ::
  "real \<Rightarrow> real \<Rightarrow> frame_event list \<Rightarrow> real \<Rightarrow> batch \<Rightarrow> batch option" where
  "sampleWithRAF targetFps endBy [] prev b = None"
| "sampleWithRAF targetFps endBy (e # es) prev b =
     (let take = (prev = 0 \<or> throttle_open targetFps (cb_now e) prev);
          b1 = (if take then stamp e b else b);
          prev1 = (if take then cb_now e else prev)
      in if check_now e < endBy \<and> \<not> video_ended e \<and> doc_visible e
         then sampleWithRAF targetFps endBy es prev1 b1
         else Some b1)"

section \<open>The probe\<close>

datatype sampler_kind = RVFC | RAF

record acf_block =
  bestLag :: nat
  bestCorr :: real

record spectrum_block =
  peakFreqHz :: real
  peakStrength :: real

record ifi_block =
  meanMs :: real
  medianMs :: real
  stdMs :: real
  cv :: real
  p90Ms :: real
  p99Ms :: real
  dropRate :: real
  acf :: acf_block
  spectrum :: spectrum_block

record drift_block =
  meanMsPerFrame :: real
  medianMsPerFrame :: real
  stdMsPerFrame :: real
  p90MsPerFrame :: real

record raw_block =
  raw_samples :: "real list"
  ifiCount :: nat

record report =
  sampler :: sampler_kind
  nFrames :: nat
  durationMs :: real
  fpsEst :: real
  ifi :: ifi_block
  drift :: drift_block
  raw :: raw_block

text \<open>The local constants of \<open>runTimingProbe\<close> after sampling, each under its own name.\<close>

definition probe_fpsEst :: "real list \<Rightarrow> real" where
  "probe_fpsEst ifis = (if 0 < mean ifis then 1000 / mean ifis else 0)"

definition probe_vdt :: "real list \<Rightarrow> real list" where
  "probe_vdt vtimes = map (\<lambda>s. s * 1000) (diffs_js vtimes)"

definition probe_driftPerFrame :: "real list \<Rightarrow> real list \<Rightarrow> real list" where
  "probe_driftPerFrame samples vtimes = arraySub (diffs_js samples) (probe_vdt vtimes)"

definition probe_acf :: "real list \<Rightarrow> jsnum list" where
  "probe_acf ifis = autocorr (centerZ ifis) (min 60 (length ifis div 2))"

definition probe_acfMaxLag :: "real list \<Rightarrow> nat" where
  "probe_acfMaxLag ifis = argmax (drop 1 (probe_acf ifis)) + 1"

text \<open>\<open>acf[acfMaxLag] ?? 0\<close>: a read past the end is \<open>undefined\<close> and becomes 0.\<close>

definition probe_acfMax :: "real list \<Rightarrow> jsnum" where
  "probe_acfMax ifis =
     (let acf = probe_acf ifis; k = probe_acfMaxLag ifis
      in if k < length acf then acf ! k else Num 0)"

text \<open>Lines 91 and 92: an exception or a hang in \<open>magnitudeFFT\<close> is one of the probe.\<close>

definition probe_peak :: "real list \<Rightarrow> peak outcome" where
  "probe_peak ifis =
     (case magnitudeFFT (centerZ ifis) of
        Returns mag \<Rightarrow>
          Returns (dominantFrequency mag
                     (if probe_fpsEst ifis \<noteq> 0 then probe_fpsEst ifis else 30))
      | Throws e \<Rightarrow> Throws e
      | NeverReturns \<Rightarrow> NeverReturns)"

definition bigGapMs :: "real \<Rightarrow> real" where
  "bigGapMs targetFps = (1000 / max 10 targetFps) * 3"

definition probe_dropCount :: "real \<Rightarrow> real list \<Rightarrow> nat" where
  "probe_dropCount targetFps ifis = length (filter (\<lambda>x. bigGapMs targetFps < x) ifis)"

definition probe_dropRate :: "real \<Rightarrow> real list \<Rightarrow> real" where
  "probe_dropRate targetFps ifis =
     safeDiv (real (probe_dropCount targetFps ifis)) (real (length ifis))"

text \<open>Lines 100 to 128: the report, given the peak of the spectrum.\<close>

definition make_report :: "bool \<Rightarrow> real \<Rightarrow> batch \<Rightarrow> peak \<Rightarrow> report" where
  "make_report useRVFC targetFps b pk =
     (case b of (samples, vtimes) \<Rightarrow>
        let ifis = diffs_js samples;
            driftStats = summarize (probe_driftPerFrame samples vtimes)
        in \<lparr> sampler = (if useRVFC then RVFC else RAF),
             nFrames = length samples,
             durationMs =
               (if length samples \<noteq> 0 then samples ! (length samples - 1) - samples ! 0 else 0),
             fpsEst = probe_fpsEst ifis,
             ifi = \<lparr> meanMs = round_js (Num (mean ifis)) 3,
                     medianMs = round_js (Num (median ifis)) 3,
                     stdMs = round_js (Num (stddev ifis)) 3,
                     cv = round_js (Num (safeDiv (stddev ifis) (mean ifis))) 6,
                     p90Ms = round_js (Num (percentile ifis (9 / 10))) 3,
                     p99Ms = round_js (Num (percentile ifis (99 / 100))) 3,
                     dropRate = round_js (Num (probe_dropRate targetFps ifis)) 6,
                     acf = \<lparr> bestLag = probe_acfMaxLag ifis,
                             bestCorr = round_js (probe_acfMax ifis) 6 \<rparr>,
                     spectrum = \<lparr> peakFreqHz = round_js (pk_freq pk) 4,
                                  peakStrength = round_js (pk_strength pk) 6 \<rparr> \<rparr>,
             drift = \<lparr> meanMsPerFrame = round_js (Num (sum_mean driftStats)) 3,
                       medianMsPerFrame = round_js (Num (sum_median driftStats)) 3,
                       stdMsPerFrame = round_js (Num (sum_std driftStats)) 3,
                       p90MsPerFrame = round_js (Num (sum_p90 driftStats)) 3 \<rparr>,
             raw = \<lparr> raw_samples = take 5 samples, ifiCount = length ifis \<rparr> \<rparr>)"

text \<open>
  Lines 67 to 128: the report computed from the two sampled arrays. Everything but the
  spectrum is computed by total functions.
\<close>

definition probe_report :: "bool \<Rightarrow> real \<Rightarrow> batch \<Rightarrow> report outcome" where
  "probe_report useRVFC targetFps b =
     (case probe_peak (diffs_js (fst b)) of
        Returns pk \<Rightarrow> Returns (make_report useRVFC targetFps b pk)
      | Throws e \<Rightarrow> Throws e
      | NeverReturns \<Rightarrow> NeverReturns)"

text \<open>
  \<open>useRVFC\<close> is the capability test, \<open>clock\<close> is what \<open>performance.now()\<close> reads when
  \<open>endBy\<close> is set, and \<open>events\<close> are the callbacks delivered afterwards. A sampler that
  does not resolve leaves the probe waiting.
\<close>

definition run_sampler ::
  "bool \<Rightarrow> real \<Rightarrow> real \<Rightarrow> frame_event list \<Rightarrow> batch option" where
  "run_sampler useRVFC targetFps endBy events =
     (if useRVFC then sampleWithRVFC endBy events ([], [])
      else sampleWithRAF targetFps endBy events 0 ([], []))"

definition runTimingProbe ::
  "bool \<Rightarrow> real \<Rightarrow> real \<Rightarrow> real \<Rightarrow> frame_event list \<Rightarrow> report outcome" where
  "runTimingProbe useRVFC optDurationMs targetFps clock events =
     (let endBy = clock + optDurationMs
      in case run_sampler useRVFC targetFps endBy events of
           None \<Rightarrow> NeverReturns
         | Some b \<Rightarrow> probe_report useRVFC targetFps b)"

section \<open>Sample inputs\<close>

definition ev1 :: frame_event where
  "ev1 = \<lparr> cb_now = 10, stamp_now = 10, current_time = 0, check_now = 10,
           video_ended = False, doc_visible = True \<rparr>"

definition ev2 :: frame_event where
  "ev2 = \<lparr> cb_now = 50, stamp_now = 50, current_time = 1 / 25, check_now = 50,
           video_ended = True, doc_visible = True \<rparr>"

section \<open>Rounded values\<close>

text \<open>
  \<open>y\<close> has at most \<open>d\<close> decimals; from \<open>10^21\<close> on, where \<open>toFixed\<close> prints the number
  itself, every double is a whole number.
\<close>

definition has_decimals :: "nat \<Rightarrow> real \<Rightarrow> bool" where
  "has_decimals d y = (of_int \<lfloor>y * 10 ^ d\<rfloor> = y * 10 ^ d \<or> 10 ^ 21 \<le> \<bar>y\<bar>)"

text \<open>\<open>y\<close> is \<open>v\<close> rounded to \<open>d\<close> decimals, or 0 when \<open>v\<close> is not finite.\<close>

definition rounds_to :: "nat \<Rightarrow> jsnum \<Rightarrow> real \<Rightarrow> bool" where
  "rounds_to d v y =
     (case v of Num x \<Rightarrow> has_decimals d y \<and> \<bar>y - x\<bar> \<le> 1 / (2 * 10 ^ d) | _ \<Rightarrow> y = 0)"

section \<open>The finite entries of the autocorrelation\<close>

text \<open>The number that \<open>autocorr arr maxLag\<close> holds at index \<open>lag\<close> when the divisor is not 0.\<close>

definition acf_value :: "real list \<Rightarrow> nat \<Rightarrow> real" where
  "acf_value arr lag =
     foldl (\<lambda>s i. s + arr ! i * arr ! (i - lag)) 0 [lag..<length arr] /
     ((real (length arr) - real lag) * (if variance arr \<noteq> 0 then variance arr else 1 / 10 ^ 12))"

section \<open>Array lengths\<close>

text \<open>Both arrays of a pair have length \<open>n\<close>.\<close>

definition both_len :: "nat \<Rightarrow> arrays \<Rightarrow> bool" where
  "both_len n a = (length (fst a) = n \<and> length (snd a) = n)"

section \<open>Properties of the statistics kernel\<close>

lemma foldl_add_sum_list: "foldl (\<lambda>s x. s + x) a xs = a + sum_list (xs :: real list)"
  by (induction xs arbitrary: a) simp_all

lemma foldl_sq_nonneg:
  "0 \<le> a \<Longrightarrow> 0 \<le> foldl (\<lambda>s x. s + (x - m) * (x - m)) (a :: real) xs"
  by (induction xs arbitrary: a) simp_all

lemma foldl_sq_sum_list:
  "foldl (\<lambda>s x. s + (x - m) * (x - m)) a xs = a + (\<Sum>x\<leftarrow>xs. (x - m)\<^sup>2 :: real)"
  by (induction xs arbitrary: a) (simp_all add: power2_eq_square)

lemma variance_nonneg: "0 \<le> variance arr"
  by (simp add: variance_def Let_def foldl_sq_nonneg)

text \<open>
  C9. The variance of every sequence is non-negative, the standard deviation is the
  square root of the variance, the variance of a sequence with fewer than two elements is
  0, and otherwise it is the sample variance: the sum of the squared deviations from the
  mean divided by \<open>n - 1\<close>.
\<close>

theorem variance_stddev_spec:
  "0 \<le> variance S \<and> stddev S = sqrt (variance S) \<and>
   (if length S < 2 then variance S = 0
    else variance S = (\<Sum>x\<leftarrow>S. (x - sum_list S / real (length S))\<^sup>2) / (real (length S) - 1))"
proof -
  have nn: "0 \<le> variance S" by (rule variance_nonneg)
  have sd: "stddev S = sqrt (variance S)"
    using nn by (simp add: stddev_def max_def)
  have small: "length S < 2 \<Longrightarrow> variance S = 0"
    by (simp add: variance_def)
  have big: "\<not> length S < 2 \<Longrightarrow>
      variance S = (\<Sum>x\<leftarrow>S. (x - sum_list S / real (length S))\<^sup>2) / (real (length S) - 1)"
    by (simp add: variance_def mean_def Let_def foldl_sq_sum_list foldl_add_sum_list)
  show ?thesis using nn sd small big by simp
qed

theorem variance_stddev_spec_witness:
  "variance [1, 3] = 2 \<and> stddev [1, 3] = sqrt 2 \<and> variance [5] = 0 \<and> stddev [5] = 0"
  using variance_stddev_spec [of "[1, 3]"] variance_stddev_spec [of "[5]"]
  by (simp add: power2_eq_square)

lemma sorted_nth_0_Min: "xs \<noteq> [] \<Longrightarrow> sorted xs \<Longrightarrow> xs ! 0 = Min (set (xs :: real list))"
  by (cases xs) (auto intro!: Min_eqI [symmetric])

lemma sorted_nth_last_Max:
  assumes "xs \<noteq> []" "sorted xs"
  shows "xs ! (length xs - 1) = Max (set (xs :: real list))"
proof (rule Max_eqI [symmetric])
  show "finite (set xs)" by simp
  show "xs ! (length xs - 1) \<in> set xs" using assms by simp
  fix y assume "y \<in> set xs"
  then obtain i where i: "i < length xs" "xs ! i = y" by (auto simp: in_set_conv_nth)
  then have "xs ! i \<le> xs ! (length xs - 1)"
    using assms by (intro sorted_nth_mono) auto
  then show "y \<le> xs ! (length xs - 1)" using i by simp
qed

text \<open>
  C5. For a non-empty sequence \<open>S\<close> of length \<open>n\<close> and a real \<open>p\<close>, \<open>percentile S p\<close> is the
  element of the ascending sort of \<open>S\<close> at index \<open>floor (p * (n - 1))\<close> clamped to
  \<open>0 .. n - 1\<close>; at \<open>p = 0\<close> it is the minimum and at \<open>p = 1\<close> the maximum of \<open>S\<close>.
\<close>

theorem percentile_nearest_rank:
  assumes "S \<noteq> []"
  shows "percentile S p =
           sort S ! nat (min (int (length S) - 1) (max 0 \<lfloor>p * (real (length S) - 1)\<rfloor>)) \<and>
         percentile S 0 = Min (set S) \<and> percentile S 1 = Max (set S)"
proof -
  have ne: "sort S \<noteq> []" using assms by (metis length_sort length_0_conv)
  have a: "percentile S p =
           sort S ! nat (min (int (length S) - 1) (max 0 \<lfloor>p * (real (length S) - 1)\<rfloor>))"
    using assms by (simp add: percentile_def percentile_index_def)
  have len: "0 < length S" using assms by simp
  have b: "percentile S 0 = sort S ! 0"
    using assms len by (simp add: percentile_def percentile_index_def)
  have "\<lfloor>real (length S) - 1\<rfloor> = int (length S) - 1"
    by (metis floor_of_int of_int_1 of_int_diff of_int_of_nat_eq)
  then have c: "percentile S 1 = sort S ! (length (sort S) - 1)"
    using assms len by (simp add: percentile_def percentile_index_def nat_diff_distrib')
  show ?thesis
    using a b c sorted_nth_0_Min [OF ne] sorted_nth_last_Max [OF ne] by simp
qed

theorem percentile_nearest_rank_witness:
  "percentile [3, 1, 2] (1/2) = 2 \<and> percentile [3, 1, 2] 0 = 1 \<and> percentile [3, 1, 2] 1 = 3"
  using percentile_nearest_rank [of "[3, 1, 2]" "1/2"]
  by simp

section \<open>Autocorrelation at lag 0\<close>

text \<open>
  C1. The claim is that index 0 of \<open>autocorr S L\<close> is 1 whenever \<open>S\<close> has non-zero variance,
  as the comment in the source says. The source divides the sum of the products by
  \<open>n\<close> times the sample variance, which itself divides by \<open>n - 1\<close>: for the sequence
  \<open>1, -1\<close> (mean 0, variance 2) index 0 is one half.
\<close>

theorem autocorr_lag0_half: "autocorr [1, - 1] 0 = [Num (1 / 2)]"
  by (simp add: autocorr_def variance_def mean_def js_div_def Let_def)

section \<open>The sampled batch and the derived series\<close>

lemma stamp_lengths:
  "length (snd b) = length (fst b) \<Longrightarrow> length (snd (stamp e b)) = length (fst (stamp e b))"
  by (cases b) (simp add: stamp_def)

lemma sampleWithRVFC_lengths:
  "sampleWithRVFC endBy es b = Some b' \<Longrightarrow> length (snd b) = length (fst b) \<Longrightarrow>
   length (snd b') = length (fst b')"
proof (induction es arbitrary: b)
  case Nil then show ?case by simp
next
  case (Cons e es)
  then show ?case
    using stamp_lengths [of b e] by (auto simp: Let_def split: if_splits)
qed

lemma sampleWithRAF_lengths:
  "sampleWithRAF fps endBy es prev b = Some b' \<Longrightarrow> length (snd b) = length (fst b) \<Longrightarrow>
   length (snd b') = length (fst b')"
proof (induction es arbitrary: b prev)
  case Nil then show ?case by simp
next
  case (Cons e es)
  then show ?case
    using stamp_lengths [of b e] by (auto simp: Let_def split: if_splits)
qed

text \<open>Every batch a sampler hands over has as many media timestamps as system timestamps.\<close>

lemma run_sampler_lengths:
  "run_sampler u fps endBy es = Some (samples, vtimes) \<Longrightarrow> length vtimes = length samples"
  using sampleWithRVFC_lengths [of endBy es "([], [])" "(samples, vtimes)"]
        sampleWithRAF_lengths [of fps endBy es 0 "([], [])" "(samples, vtimes)"]
  by (simp add: run_sampler_def split: if_splits)

lemma length_diffs_js: "length (diffs_js arr) = length arr - 1"
  by (simp add: diffs_js_def)

text \<open>
  C6. For a batch of \<open>N\<close> samples (\<open>N\<close> system timestamps and \<open>N\<close> media timestamps) the
  inter-frame intervals, the scaled media-time deltas and the drift series each have
  length \<open>N - 1\<close>, which is 0 for \<open>N = 0\<close> and \<open>N = 1\<close>, and the drift is the interval minus
  the scaled media delta at each index.
\<close>

theorem derived_series_lengths:
  assumes "length vtimes = length samples"
  shows "length (diffs_js samples) = length samples - 1 \<and>
         length (probe_vdt vtimes) = length samples - 1 \<and>
         length (probe_driftPerFrame samples vtimes) = length samples - 1 \<and>
         (\<forall>i<length samples - 1.
            probe_driftPerFrame samples vtimes ! i = diffs_js samples ! i - probe_vdt vtimes ! i)"
  using assms by (simp add: length_diffs_js probe_vdt_def probe_driftPerFrame_def arraySub_def)

theorem derived_series_lengths_witness:
  "length (diffs_js [0, 33, 70]) = 2 \<and> length (probe_vdt [0, 3 / 100, 7 / 100]) = 2 \<and>
   probe_driftPerFrame [0, 33, 70] [0, 3 / 100, 7 / 100] = [3, - 3] \<and>
   length (diffs_js [5]) = 0 \<and> length (probe_driftPerFrame [5] [1]) = 0"
proof -
  have a: "probe_driftPerFrame [0, 33, 70] [0, 3 / 100, 7 / 100] = [3, - 3]"
    by (simp add: probe_driftPerFrame_def probe_vdt_def arraySub_def diffs_js_def upt_rec)
  show ?thesis
    using derived_series_lengths [of "[0, 3 / 100, 7 / 100]" "[0, 33, 70]"]
          derived_series_lengths [of "[1]" "[5]"] a
    by simp
qed

section \<open>Shifts, and when the transform returns\<close>

declare block_loop.simps [simp del] stage_loop.simps [simp del] dominant_loop.simps [simp del]
  bitrev_carry.simps [simp del]

lemma wrap32_id: "- (2 ^ 31) \<le> x \<Longrightarrow> x < 2 ^ 31 \<Longrightarrow> wrap32 x = x"
  unfolding wrap32_def by (simp add: mod_pos_pos_trivial)

lemma js_shl_1_pow:
  assumes "k \<le> 30"
  shows "js_shl 1 k = 2 ^ k"
proof -
  have "(2 :: int) ^ k \<le> 2 ^ 30" using assms by (intro power_increasing) simp_all
  then have "(2 :: int) ^ k < 2 ^ 31" by simp
  moreover have "- (2 ^ 31) \<le> (2 :: int) ^ k"
    by (rule order_trans [of _ 0]) simp_all
  moreover have "k mod 32 = k" using assms by simp
  ultimately show ?thesis
    unfolding js_shl_def by (simp add: wrap32_id)
qed

lemma js_shl_double:
  assumes "0 < len" "len < 2 ^ 30"
  shows "js_shl len 1 = 2 * len"
proof -
  have "wrap32 len = len" using assms by (intro wrap32_id) simp_all
  moreover have "wrap32 (len * 2) = len * 2" using assms by (intro wrap32_id) simp_all
  ultimately show ?thesis unfolding js_shl_def by (simp add: mult.commute)
qed

lemma js_shl_1_31: "js_shl 1 31 = - 2147483648"
  by (simp add: js_shl_def wrap32_def)

lemma js_shl_2_30: "js_shl 1073741824 (Suc 0) = - 2147483648"
  by (simp add: js_shl_def wrap32_def)

lemma foldl_inv: "P s \<Longrightarrow> (\<And>s x. P s \<Longrightarrow> P (f s x)) \<Longrightarrow> P (foldl f s xs)"
  by (induction xs arbitrary: s) simp_all

lemma length_swap: "length (swap xs i j) = length xs"
  by (simp add: swap_def Let_def)

lemma bitrev_step_len: "both_len n (snd st) \<Longrightarrow> both_len n (snd (bitrev_step m st i))"
  by (cases st) (auto simp: bitrev_step_def both_len_def length_swap Let_def split: prod.splits)

lemma bit_reversal_len: "both_len n a \<Longrightarrow> both_len n (bit_reversal a)"
  unfolding bit_reversal_def Let_def
  by (rule foldl_inv [where P = "\<lambda>st. both_len n (snd st)"]) (simp_all add: bitrev_step_len)

lemma butterfly_len:
  "both_len n (snd (snd st)) \<Longrightarrow> both_len n (snd (snd (butterfly len i wr wi st j)))"
  by (cases st) (auto simp: butterfly_def both_len_def Let_def)

lemma block_loop_len: "both_len m a \<Longrightarrow> both_len m (block_loop n len wr wi i a)"
proof (induction n len wr wi i a rule: block_loop.induct)
  case (1 n len wlenRe wlenIm i a)
  show ?case
  proof (cases "i < n \<and> 0 < len")
    case True
    have "both_len m (snd (snd (foldl (butterfly len i wlenRe wlenIm) (1, 0, a) [0..<len div 2])))"
      by (rule foldl_inv [where P = "\<lambda>st. both_len m (snd (snd st))"])
         (simp_all add: butterfly_len "1.prems")
    then show ?thesis
      using True "1.IH" by (subst block_loop.simps) simp
  next
    case False
    then show ?thesis by (subst block_loop.simps) (simp only: if_False "1.prems")
  qed
qed

text \<open>On at most \<open>2^29\<close> points the loop over \<open>len\<close> ends before the shift wraps.\<close>

lemma stage_loop_returns:
  assumes "0 < len" "len \<le> 2 ^ 30" "n \<le> 2 ^ 29" "both_len m a"
  shows "\<exists>a'. stage_loop n len a = Some a' \<and> both_len m a'"
  using assms
proof (induction n len a rule: stage_loop.induct)
  case (1 n len a)
  show ?case
  proof (cases "len \<le> int n")
    case False
    then have "stage_loop n len a = Some a" by (subst stage_loop.simps) simp
    then show ?thesis using "1.prems"(4) by simp
  next
    case True
    have pos: "\<not> len \<le> 0" using "1.prems"(1) by simp
    have "int n \<le> 2 ^ 29" using "1.prems"(3) by (metis of_nat_le_iff of_nat_numeral of_nat_power)
    then have l29: "len \<le> 2 ^ 29" using True by linarith
    then have sh: "js_shl len 1 = 2 * len" using "1.prems"(1) by (intro js_shl_double) simp_all
    define a1 where "a1 = (let ang = (- 2 * pi) / real_of_int len
                          in block_loop n (nat len) (cos ang) (sin ang) 0 a)"
    have b1: "both_len m a1"
      unfolding a1_def Let_def by (rule block_loop_len) (rule "1.prems"(4))
    have step: "stage_loop n len a = stage_loop n (js_shl len 1) a1"
      using True pos unfolding a1_def by (subst stage_loop.simps) simp
    have "\<exists>a'. stage_loop n (js_shl len 1) a1 = Some a' \<and> both_len m a'"
      unfolding a1_def
    proof (rule "1.IH" [OF True pos])
      show "0 < js_shl len 1" using sh "1.prems"(1) by simp
      show "js_shl len 1 \<le> 2 ^ 30" using sh l29 by simp
      show "n \<le> 2 ^ 29" by (rule "1.prems"(3))
      show "both_len m (let ang = (- 2 * pi) / real_of_int len
                       in block_loop n (nat len) (cos ang) (sin ang) 0 a)"
        using b1 unfolding a1_def .
    qed
    then show ?thesis unfolding step a1_def .
  qed
qed

lemma fft_returns:
  assumes "both_len n a" "n \<le> 2 ^ 29"
  shows "\<exists>a'. fft a = Some a' \<and> both_len n a'"
proof -
  have "length (fst a) = n" using assms(1) by (simp add: both_len_def)
  then show ?thesis
    unfolding fft_def Let_def
    using stage_loop_returns [of 2 n n "bit_reversal a"] assms bit_reversal_len [of n a]
    by simp
qed

text \<open>On \<open>2^30\<close> points the shift wraps to \<open>-2^31\<close> and the loop over \<open>len\<close> never ends.\<close>

lemma stage_loop_hangs:
  assumes "j \<le> 30"
  shows "stage_loop (2 ^ 30) (2 ^ j) a = None"
  using assms
proof (induction "30 - j" arbitrary: j a)
  case 0
  then have j: "j = 30" by simp
  have "stage_loop (2 ^ 30) (- 2147483648) b = None" for b
    by (subst stage_loop.simps) simp
  then show ?case
    unfolding j by (subst stage_loop.simps) (simp add: js_shl_2_30)
next
  case (Suc d)
  then have j: "j < 30" by simp
  have "(2 :: int) ^ j < 2 ^ 30" using j by (intro power_strict_increasing) simp_all
  then have sh: "js_shl (2 ^ j) (Suc 0) = 2 ^ Suc j"
    using js_shl_double [of "2 ^ j"] by simp
  have le: "(2 :: int) ^ j \<le> int (2 ^ 30)"
    using \<open>(2 :: int) ^ j < 2 ^ 30\<close> by simp
  have "stage_loop (2 ^ 30) (2 ^ Suc j) b = None" for b
    using Suc.hyps(1) [of "Suc j" b] Suc.hyps(2) j by simp
  then show ?case
    using le by (subst stage_loop.simps) (simp add: sh del: power_Suc)
qed

lemma fft_size_pow:
  assumes "N \<le> 2 ^ 30"
  shows "fft_size N = 2 ^ ceillog2 (max 2 N)"
proof -
  have "max 2 N \<le> 2 ^ 30" using assms by simp
  then have "ceillog2 (max 2 N) \<le> 30"
    using ceillog2_le_iff [of "max 2 N" 30] by simp
  then have "js_shl 1 (ceillog2 (max 2 N)) = 2 ^ ceillog2 (max 2 N)"
    by (rule js_shl_1_pow)
  moreover have "nat \<lceil>log 2 (real (max 2 N))\<rceil> = ceillog2 (max 2 N)"
    by (simp add: ceillog2_def)
  ultimately show ?thesis unfolding fft_size_def by simp
qed

lemma next_power:
  "max 2 N \<le> 2 ^ ceillog2 (max 2 N) \<and> 2 ^ ceillog2 (max 2 N) < 2 * max 2 N"
proof -
  have "0 < max 2 N" by simp
  then show ?thesis
    using le_two_power_ceillog2 [of "max 2 N"] two_power_ceillog2_gt [of "max 2 N"] by blast
qed

lemma next_power_even: "2 * (2 ^ ceillog2 (max 2 N) div 2) = (2 :: nat) ^ ceillog2 (max 2 N)"
proof -
  have "1 \<le> ceillog2 (max 2 N)"
    using ceillog2_ge_iff [of "max 2 N" 1] by simp
  then obtain k where "ceillog2 (max 2 N) = Suc k"
    by (metis One_nat_def Suc_le_D)
  then show ?thesis by simp
qed

text \<open>
  A series of at most \<open>2^29\<close> entries: \<open>n\<close> is the least power of two from \<open>max 2 N\<close> on, the
  transform returns, and so does \<open>magnitudeFFT\<close>.
\<close>

lemma magnitudeFFT_returns:
  assumes "length arr \<le> 2 ^ 29"
  shows "\<exists>n re1 im1.
           n = 2 ^ ceillog2 (max 2 (length arr)) \<and> fft_size (length arr) = int n \<and>
           fft (arr @ replicate (n - length arr) 0, replicate n 0) = Some (re1, im1) \<and>
           length re1 = n \<and> length im1 = n \<and>
           magnitudeFFT arr =
             Returns (map (\<lambda>k. if k = 0 then 0 else sqrt ((re1 ! k)\<^sup>2 + (im1 ! k)\<^sup>2))
                        [0..<n div 2])"
proof -
  define N where "N = length arr"
  define n :: nat where "n = 2 ^ ceillog2 (max 2 N)"
  have N30: "N \<le> 2 ^ 30"
    using assms unfolding N_def by (rule order_trans) simp
  have fs: "fft_size N = int n"
    using fft_size_pow [OF N30] by (simp add: n_def)
  have "max 2 N \<le> 2 ^ 29" using assms by (simp add: N_def)
  then have "ceillog2 (max 2 N) \<le> 29"
    using ceillog2_le_iff [of "max 2 N" 29] by simp
  then have n29: "n \<le> 2 ^ 29"
    unfolding n_def by (intro power_increasing) simp_all
  have Nn: "N \<le> n" using next_power [of N] by (simp add: n_def)
  have bl: "both_len n (arr @ replicate (n - N) 0, replicate n 0)"
    using Nn by (simp add: both_len_def N_def)
  obtain a' where a': "fft (arr @ replicate (n - N) 0, replicate n 0) = Some a'" "both_len n a'"
    using fft_returns [OF bl n29] by blast
  obtain re1 im1 where ri: "a' = (re1, im1)" by (cases a')
  have len: "length re1 = n" "length im1 = n" using a'(2) by (simp_all add: ri both_len_def)
  have "magnitudeFFT arr =
          Returns (map (\<lambda>k. if k = 0 then 0 else sqrt ((re1 ! k)\<^sup>2 + (im1 ! k)\<^sup>2))
                     [0..<n div 2])"
    using Nn a'(1) unfolding magnitudeFFT_def Let_def N_def [symmetric] fs ri by simp
  then show ?thesis
    using fs a'(1) len unfolding ri n_def N_def by blast
qed

lemma length_centerZ: "length (centerZ arr) = length arr"
  by (simp add: centerZ_def)

lemma length_diffs_short: "length (diffs_js arr) \<le> length arr"
  by (simp add: diffs_js_def)

text \<open>The probe returns a report for every batch of at most \<open>2^29\<close> samples.\<close>

lemma probe_report_returns:
  assumes "length samples \<le> 2 ^ 29"
  shows "\<exists>pk. probe_peak (diffs_js samples) = Returns pk \<and>
              probe_report u fps (samples, vtimes) =
                Returns (make_report u fps (samples, vtimes) pk)"
proof -
  have "length (centerZ (diffs_js samples)) \<le> 2 ^ 29"
    using assms length_diffs_short [of samples] by (simp add: length_centerZ)
  then obtain mag where "magnitudeFFT (centerZ (diffs_js samples)) = Returns mag"
    using magnitudeFFT_returns by blast
  then show ?thesis
    by (simp add: probe_peak_def probe_report_def)
qed

text \<open>Every report the probe returns is built from the peak of the spectrum.\<close>

lemma probe_report_Returns:
  assumes "probe_report u fps b = Returns r"
  shows "\<exists>pk. probe_peak (diffs_js (fst b)) = Returns pk \<and> r = make_report u fps b pk"
  using assms by (auto simp: probe_report_def split: outcome.splits)

section \<open>The reported duration\<close>

text \<open>
  C10. When a probe run returns, the report's \<open>durationMs\<close> is the last sampled system
  timestamp minus the first one (0 when nothing was sampled), whatever collection window
  was asked for.
\<close>

theorem report_duration:
  assumes "runTimingProbe u d fps clock events = Returns r"
  shows "\<exists>samples vtimes. run_sampler u fps (clock + d) events = Some (samples, vtimes) \<and>
           nFrames r = length samples \<and>
           durationMs r = (if samples = [] then 0 else last samples - hd samples)"
proof -
  from assms obtain b where b: "run_sampler u fps (clock + d) events = Some b"
    and r: "probe_report u fps b = Returns r"
    by (auto simp: runTimingProbe_def Let_def split: option.splits)
  obtain samples vtimes where sv: "b = (samples, vtimes)" by (cases b)
  obtain pk where m: "r = make_report u fps (samples, vtimes) pk"
    using probe_report_Returns [OF r] sv by blast
  have "durationMs r = (if samples = [] then 0 else last samples - hd samples)"
    unfolding m by (simp add: make_report_def Let_def last_conv_nth hd_conv_nth)
  moreover have "nFrames r = length samples"
    unfolding m by (simp add: make_report_def Let_def)
  ultimately show ?thesis using b sv by simp
qed

theorem report_duration_witness:
  "\<exists>r. runTimingProbe True 5000 30 0 [ev1, ev2] = Returns r \<and> nFrames r = 2 \<and> durationMs r = 40"
proof -
  have s: "run_sampler True 30 (0 + 5000) [ev1, ev2] = Some ([10, 50], [0, 1 / 25])"
    by (simp add: run_sampler_def stamp_def ev1_def ev2_def Let_def)
  obtain pk where "probe_report True 30 ([10, 50], [0, 1 / 25]) =
      Returns (make_report True 30 ([10, 50], [0, 1 / 25]) pk)"
    using probe_report_returns [of "[10, 50]" True 30 "[0, 1 / 25]"] by auto
  then have run: "runTimingProbe True 5000 30 0 [ev1, ev2] =
      Returns (make_report True 30 ([10, 50], [0, 1 / 25]) pk)"
    using s by (simp add: runTimingProbe_def Let_def)
  from report_duration [OF run] s show ?thesis
    using run by auto
qed

section \<open>Drop detection\<close>

lemma bigGapMs_30: "bigGapMs 30 = 100"
  by (simp add: bigGapMs_def)

text \<open>
  C3, amended. The drop count is the number of intervals strictly greater than
  \<open>3 * (1000 / max 10 targetFps)\<close>, the drop rate is that count divided by the length of
  the series (0 for the empty series), and a returned report holds it rounded to 6
  decimals. A series of 29 intervals of 33 ms and one more of 200 ms has 30 entries: at
  \<open>targetFps = 30\<close> its drop rate is 1/30, reported as 0.033333.
\<close>

theorem drop_rate_spec:
  "probe_dropCount fps ifis = length (filter (\<lambda>x. 3 * (1000 / max 10 fps) < x) ifis) \<and>
   probe_dropRate fps ifis =
     (if ifis = [] then 0 else real (probe_dropCount fps ifis) / real (length ifis)) \<and>
   (\<forall>r. probe_report u fps (samples, vtimes) = Returns r \<longrightarrow>
        dropRate (ifi r) = round_js (Num (probe_dropRate fps (diffs_js samples))) 6) \<and>
   probe_dropRate 30 (replicate 29 33 @ [200]) = 1 / 30 \<and>
   round_js (Num (1 / 30)) 6 = 33333 / 10 ^ 6"
proof -
  have a: "probe_dropCount fps ifis = length (filter (\<lambda>x. 3 * (1000 / max 10 fps) < x) ifis)"
    by (simp add: probe_dropCount_def bigGapMs_def mult.commute)
  have b: "probe_dropRate fps ifis =
     (if ifis = [] then 0 else real (probe_dropCount fps ifis) / real (length ifis))"
    by (simp add: probe_dropRate_def safeDiv_def)
  have c: "probe_dropRate 30 (replicate 29 33 @ [200]) = 1 / 30"
    by (simp add: probe_dropRate_def probe_dropCount_def bigGapMs_30 safeDiv_def)
  have d: "\<forall>r. probe_report u fps (samples, vtimes) = Returns r \<longrightarrow>
        dropRate (ifi r) = round_js (Num (probe_dropRate fps (diffs_js samples))) 6"
  proof (intro allI impI)
    fix r assume "probe_report u fps (samples, vtimes) = Returns r"
    then obtain pk where "r = make_report u fps (samples, vtimes) pk"
      using probe_report_Returns by blast
    then show "dropRate (ifi r) = round_js (Num (probe_dropRate fps (diffs_js samples))) 6"
      by (simp add: make_report_def Let_def)
  qed
  have e: "round_js (Num (1 / 30)) 6 = 33333 / 10 ^ 6"
    by (simp add: round_js_def toFixed_def)
  show ?thesis using a b c d e by simp
qed

theorem drop_rate_spec_witness:
  "probe_dropCount 30 [33, 200, 101, 100] = 2 \<and> probe_dropRate 30 [33, 200, 101, 100] = 1 / 2 \<and>
   probe_dropRate 5 [] = 0 \<and> probe_dropCount 5 [300, 301] = 1 \<and>
   (\<exists>r. probe_report True 30 ([0, 33, 233], [0, 0, 0]) = Returns r \<and>
        dropRate (ifi r) = 1 / 2)"
proof -
  obtain r where r: "probe_report True 30 ([0, 33, 233], [0, 0, 0]) = Returns r"
    using probe_report_returns [of "[0, 33, 233]" True 30 "[0, 0, 0]"] by auto
  have i: "diffs_js [0, 33, 233] = [33, 200]"
    by (simp add: diffs_js_def upt_rec)
  have "dropRate (ifi r) = round_js (Num (probe_dropRate 30 [33, 200])) 6"
    using drop_rate_spec [of 30 "[33, 200]" True "[0, 33, 233]" "[0, 0, 0]"] r i by simp
  moreover have "probe_dropRate 30 [33, 200] = 1 / 2"
    using drop_rate_spec [of 30 "[33, 200]" True "[]" "[]"] by simp
  moreover have "round_js (Num (1 / 2)) 6 = 1 / 2"
    by (simp add: round_js_def toFixed_def)
  ultimately have "dropRate (ifi r) = 1 / 2" by simp
  then show ?thesis
    using drop_rate_spec [of 30 "[33, 200, 101, 100]" True "[]" "[]"]
          drop_rate_spec [of 5 "[]" True "[]" "[]"]
          drop_rate_spec [of 5 "[300, 301]" True "[]" "[]"] r
    by simp
qed

text \<open>The drop rate of that series is not 1/29.\<close>

theorem drop_rate_example_counterexample:
  "probe_dropRate 30 (replicate 29 33 @ [200]) \<noteq> 1 / 29"
  by (simp add: probe_dropRate_def probe_dropCount_def bigGapMs_30 safeDiv_def)

section \<open>Rounding at the report\<close>

lemma toFixed_has_decimals: "has_decimals d (toFixed x d)"
proof -
  define a where "a = (if x < 0 then - x else x)"
  show ?thesis
  proof (cases "10 ^ 21 \<le> a")
    case True
    then have "toFixed x d = x" by (simp add: toFixed_def a_def)
    moreover have "10 ^ 21 \<le> \<bar>x\<bar>" using True by (simp add: a_def split: if_splits)
    ultimately show ?thesis by (simp add: has_decimals_def)
  next
    case False
    define k where "k = \<lfloor>a * 10 ^ d + 1 / 2\<rfloor>"
    have "toFixed x d = (if x < 0 then - (of_int k / 10 ^ d) else of_int k / 10 ^ d)"
      using False unfolding toFixed_def Let_def k_def a_def by (auto split: if_splits)
    then have "toFixed x d * 10 ^ d = of_int (if x < 0 then - k else k)"
      by simp
    then show ?thesis
      unfolding has_decimals_def by (metis floor_of_int)
  qed
qed

lemma toFixed_close: "\<bar>toFixed x d - x\<bar> \<le> 1 / (2 * 10 ^ d)"
proof -
  define a where "a = (if x < 0 then - x else x)"
  show ?thesis
  proof (cases "10 ^ 21 \<le> a")
    case True
    then have "toFixed x d = x" by (simp add: toFixed_def a_def)
    then show ?thesis by simp
  next
    case False
    define k where "k = \<lfloor>a * 10 ^ d + 1 / 2\<rfloor>"
    have k1: "of_int k \<le> a * 10 ^ d + 1 / 2" unfolding k_def by (rule of_int_floor_le)
    have k2: "a * 10 ^ d + 1 / 2 < of_int k + 1" unfolding k_def by linarith
    have "\<bar>of_int k - a * 10 ^ d\<bar> \<le> 1 / 2" using k1 k2 by linarith
    then have "\<bar>of_int k - a * 10 ^ d\<bar> / 10 ^ d \<le> (1 / 2) / 10 ^ d"
      by (intro divide_right_mono) auto
    moreover have "(of_int k - a * 10 ^ d) / 10 ^ d = of_int k / 10 ^ d - a"
      by (simp add: diff_divide_distrib)
    then have "\<bar>of_int k - a * 10 ^ d\<bar> / 10 ^ d = \<bar>of_int k / 10 ^ d - a\<bar>"
      by (metis abs_divide abs_of_nonneg zero_le_numeral zero_le_power)
    ultimately have c: "\<bar>of_int k / 10 ^ d - a\<bar> \<le> 1 / (2 * 10 ^ d)" by simp
    have "toFixed x d = (if x < 0 then - (of_int k / 10 ^ d) else of_int k / 10 ^ d)"
      using False unfolding toFixed_def Let_def k_def a_def by (auto split: if_splits)
    then show ?thesis using c by (auto simp: a_def split: if_splits)
  qed
qed

lemma round_js_rounds_to: "rounds_to d v (round_js v d)"
  by (cases v) (simp_all add: rounds_to_def round_js_def toFixed_has_decimals toFixed_close)

text \<open>
  C7, amended. Every numeric field of the \<open>ifi\<close> and \<open>drift\<close> blocks of a returned report
  is the value computed for it rounded to its precision (3 decimals; 4 for
  \<open>spectrum.peakFreqHz\<close>; 6 for \<open>cv\<close>, \<open>dropRate\<close>, \<open>acf.bestCorr\<close> and
  \<open>spectrum.peakStrength\<close>), and is 0 when that value is not finite: \<open>round\<close> of NaN or
  of an infinity is 0. The fields \<open>fpsEst\<close> and \<open>durationMs\<close> enter the report as
  computed, without rounding.
\<close>

theorem report_fields_rounded:
  assumes "probe_report u fps (samples, vtimes) = Returns r"
  shows "(let ifis = diffs_js samples;
        ds = probe_driftPerFrame samples vtimes
    in rounds_to 3 (Num (mean ifis)) (meanMs (ifi r)) \<and>
       rounds_to 3 (Num (median ifis)) (medianMs (ifi r)) \<and>
       rounds_to 3 (Num (stddev ifis)) (stdMs (ifi r)) \<and>
       rounds_to 6 (Num (safeDiv (stddev ifis) (mean ifis))) (cv (ifi r)) \<and>
       rounds_to 3 (Num (percentile ifis (9 / 10))) (p90Ms (ifi r)) \<and>
       rounds_to 3 (Num (percentile ifis (99 / 100))) (p99Ms (ifi r)) \<and>
       rounds_to 6 (Num (probe_dropRate fps ifis)) (dropRate (ifi r)) \<and>
       rounds_to 6 (probe_acfMax ifis) (bestCorr (acf (ifi r))) \<and>
       (\<exists>pk. probe_peak ifis = Returns pk \<and>
             rounds_to 4 (pk_freq pk) (peakFreqHz (spectrum (ifi r))) \<and>
             rounds_to 6 (pk_strength pk) (peakStrength (spectrum (ifi r)))) \<and>
       rounds_to 3 (Num (mean ds)) (meanMsPerFrame (drift r)) \<and>
       rounds_to 3 (Num (median ds)) (medianMsPerFrame (drift r)) \<and>
       rounds_to 3 (Num (stddev ds)) (stdMsPerFrame (drift r)) \<and>
       rounds_to 3 (Num (percentile ds (9 / 10))) (p90MsPerFrame (drift r)) \<and>
       fpsEst r = probe_fpsEst ifis \<and>
       durationMs r =
         (if length samples \<noteq> 0 then samples ! (length samples - 1) - samples ! 0 else 0)) \<and>
   round_js NaN d = 0 \<and> round_js PosInf d = 0 \<and> round_js NegInf d = 0"
proof -
  obtain pk where pk: "probe_peak (diffs_js samples) = Returns pk"
    and r: "r = make_report u fps (samples, vtimes) pk"
    using probe_report_Returns [OF assms] by auto
  have n: "round_js NaN d = 0 \<and> round_js PosInf d = 0 \<and> round_js NegInf d = 0"
    by (simp add: round_js_def)
  have p: "\<exists>pk. probe_peak (diffs_js samples) = Returns pk \<and>
             rounds_to 4 (pk_freq pk) (peakFreqHz (spectrum (ifi r))) \<and>
             rounds_to 6 (pk_strength pk) (peakStrength (spectrum (ifi r)))"
    using pk unfolding r by (simp add: make_report_def Let_def round_js_rounds_to)
  show ?thesis
    using n p unfolding r
    by (simp add: Let_def make_report_def summarize_def round_js_rounds_to)
qed

theorem report_fields_rounded_witness:
  "\<exists>r. probe_report True 30 ([0, 3], [0, 0]) = Returns r \<and>
       rounds_to 3 (Num 3) (meanMs (ifi r)) \<and> rounds_to 3 (Num 3) (medianMs (ifi r)) \<and>
       fpsEst r = 1000 / 3 \<and> durationMs r = 3"
proof -
  obtain r where r: "probe_report True 30 ([0, 3], [0, 0]) = Returns r"
    using probe_report_returns [of "[0, 3]" True 30 "[0, 0]"] by auto
  have i: "diffs_js [0, 3] = [3]" by (simp add: diffs_js_def)
  have "rounds_to 3 (Num (mean [3])) (meanMs (ifi r)) \<and>
        rounds_to 3 (Num (median [3])) (medianMs (ifi r)) \<and>
        fpsEst r = probe_fpsEst [3] \<and> durationMs r = 3"
    using report_fields_rounded [OF r, of 0] by (simp add: Let_def i)
  then show ?thesis
    using r by (auto simp: mean_def median_def probe_fpsEst_def)
qed

text \<open>
  For the two timestamps 0 and 3 the mean interval is 3 ms and the report's \<open>fpsEst\<close> is
  1000/3, which has no finite decimal expansion.
\<close>

theorem fpsEst_unrounded_counterexample:
  "map_outcome fpsEst (probe_report True 30 ([0, 3], [0, 0])) = Returns (1000 / 3) \<and>
   \<not> has_decimals 3 (1000 / 3)"
proof -
  obtain pk where "probe_report True 30 ([0, 3], [0, 0]) =
      Returns (make_report True 30 ([0, 3], [0, 0]) pk)"
    using probe_report_returns [of "[0, 3]" True 30 "[0, 0]"] by auto
  then show ?thesis
    by (simp add: make_report_def Let_def probe_fpsEst_def diffs_js_def mean_def has_decimals_def)
qed

section \<open>Empty and singleton batches\<close>

lemma diffs_short: "length samples \<le> 1 \<Longrightarrow> diffs_js samples = []"
  by (simp add: diffs_js_def)

lemma magnitudeFFT_Nil: "magnitudeFFT [] = Returns [0]"
  using magnitudeFFT_returns [of "[]"] by auto

lemma probe_peak_Nil: "probe_peak [] = Returns \<lparr> pk_freq = Num 0, pk_strength = Num 0 \<rparr>"
  by (simp add: probe_peak_def centerZ_def magnitudeFFT_Nil dominantFrequency_def js_div_def
      probe_fpsEst_def mean_def dominant_loop.simps)

lemma probe_acf_Nil: "probe_acf [] = [NaN]"
  by (simp add: probe_acf_def centerZ_def autocorr_def variance_def js_div_def)

lemma probe_acfMaxLag_Nil: "probe_acfMaxLag [] = 1"
  by (simp add: probe_acfMaxLag_def probe_acf_Nil argmax_def)

lemma probe_acfMax_Nil: "probe_acfMax [] = Num 0"
  by (simp add: probe_acfMax_def probe_acfMaxLag_Nil probe_acf_Nil)

lemma toFixed_0: "toFixed 0 d = 0"
  by (simp add: toFixed_def)

lemma stats_Nil:
  "mean [] = 0" "median [] = 0" "stddev [] = 0" "percentile [] p = 0" "probe_dropRate fps [] = 0"
  "probe_fpsEst [] = 0"
  by (simp_all add: mean_def median_def stddev_def variance_def percentile_def
      probe_dropRate_def safeDiv_def probe_fpsEst_def)

lemma probe_report_short:
  assumes "length samples \<le> 1"
  shows "probe_report u fps (samples, vtimes) =
           Returns (make_report u fps (samples, vtimes) \<lparr> pk_freq = Num 0, pk_strength = Num 0 \<rparr>)"
  by (simp add: probe_report_def diffs_short [OF assms] probe_peak_Nil)

text \<open>
  C2, amended. For a batch of 0 or 1 samples the probe returns a report, with \<open>nFrames\<close>
  equal to the batch length and every interval and drift statistic equal to 0, except
  \<open>acf.bestLag\<close>, which is 1: the best lag is one more than an index into the lags from
  1 on and is never 0.
\<close>

theorem degenerate_batch_report:
  assumes "length samples \<le> 1"
  shows "\<exists>r. probe_report u fps (samples, vtimes) = Returns r \<and>
             nFrames r = length samples \<and> durationMs r = 0 \<and> fpsEst r = 0 \<and>
             meanMs (ifi r) = 0 \<and> medianMs (ifi r) = 0 \<and> stdMs (ifi r) = 0 \<and>
             cv (ifi r) = 0 \<and> p90Ms (ifi r) = 0 \<and> p99Ms (ifi r) = 0 \<and>
             dropRate (ifi r) = 0 \<and>
             bestLag (acf (ifi r)) = 1 \<and> bestCorr (acf (ifi r)) = 0 \<and>
             peakFreqHz (spectrum (ifi r)) = 0 \<and> peakStrength (spectrum (ifi r)) = 0 \<and>
             meanMsPerFrame (drift r) = 0 \<and> medianMsPerFrame (drift r) = 0 \<and>
             stdMsPerFrame (drift r) = 0 \<and> p90MsPerFrame (drift r) = 0 \<and>
             ifiCount (raw r) = 0"
proof -
  have i: "diffs_js samples = []" using assms by (rule diffs_short)
  have d: "probe_driftPerFrame samples vtimes = []"
    by (simp add: probe_driftPerFrame_def i arraySub_def)
  have dur: "samples \<noteq> [] \<longrightarrow> samples ! (length samples - Suc 0) = samples ! 0"
    using assms by (cases samples) simp_all
  show ?thesis
    unfolding probe_report_short [OF assms] make_report_def Let_def
    by (simp add: i d dur summarize_def stats_Nil safeDiv_def round_js_def toFixed_0
        probe_acfMaxLag_Nil probe_acfMax_Nil del: length_0_conv)
qed

theorem degenerate_batch_report_witness:
  "(\<exists>r. probe_report True 30 ([7], [2]) = Returns r \<and> nFrames r = 1 \<and>
        bestLag (acf (ifi r)) = 1 \<and> meanMs (ifi r) = 0) \<and>
   (\<exists>r. probe_report False 30 ([], []) = Returns r \<and> nFrames r = 0 \<and>
        p90MsPerFrame (drift r) = 0)"
  using degenerate_batch_report [of "[7]" True 30 "[2]"]
        degenerate_batch_report [of "[]" False 30 "[]"]
  by auto

text \<open>For a batch of one sample the reported best lag is 1, not 0.\<close>

theorem degenerate_bestLag_counterexample:
  "map_outcome (bestLag \<circ> acf \<circ> ifi) (probe_report True 30 ([7], [2])) = Returns 1"
  by (simp add: probe_report_short make_report_def Let_def diffs_js_def probe_acfMaxLag_Nil)

section \<open>The best lag\<close>

lemma argmax_loop_max:
  assumes "m < i" "i \<le> length vs" "\<forall>k<i. vs ! k \<le> vs ! m"
  shows "argmax_loop (map Num vs) i m < length vs \<and>
         (\<forall>k<length vs. vs ! k \<le> vs ! argmax_loop (map Num vs) i m)"
  using assms
proof (induction "length vs - i" arbitrary: i m)
  case 0
  then have "i = length vs" by simp
  then show ?case using 0 by simp
next
  case (Suc d)
  then have lt: "i < length vs" by simp
  define m' where "m' = (if vs ! m < vs ! i then i else m)"
  have step: "argmax_loop (map Num vs) i m = argmax_loop (map Num vs) (i + 1) m'"
    using lt Suc.prems(1) by (subst argmax_loop.simps) (simp add: m'_def)
  have inv: "\<forall>k<i + 1. vs ! k \<le> vs ! m'"
  proof (intro allI impI)
    fix k assume "k < i + 1"
    then consider "k < i" | "k = i" by linarith
    then show "vs ! k \<le> vs ! m'"
    proof cases
      case 1
      then have "vs ! k \<le> vs ! m" using Suc.prems(3) by simp
      then show ?thesis by (simp add: m'_def)
    next
      case 2
      then show ?thesis by (simp add: m'_def)
    qed
  qed
  have "m' < i + 1" using Suc.prems(1) by (simp add: m'_def)
  moreover have "i + 1 \<le> length vs" using lt by simp
  moreover have "d = length vs - (i + 1)" using Suc.hyps(2) by simp
  ultimately show ?case
    using Suc.hyps(1) [of "i + 1" m'] inv step by simp
qed

lemma argmax_Num:
  assumes "vs \<noteq> []"
  shows "argmax (map Num vs) < length vs \<and> (\<forall>k<length vs. vs ! k \<le> vs ! argmax (map Num vs))"
proof -
  have "1 \<le> length vs" using assms by (simp add: Suc_le_eq)
  then show ?thesis
    unfolding argmax_def using argmax_loop_max [of 0 1 vs] by simp
qed
lemma probe_acf_Num:
  assumes "2 \<le> length ifis"
  shows "probe_acf ifis =
           map (\<lambda>l. Num (acf_value (centerZ ifis) l)) [0..<min 60 (length ifis div 2) + 1]"
proof -
  have len: "length (centerZ ifis) = length ifis" by (simp add: centerZ_def)
  have "\<And>l. l \<in> set [0..<min 60 (length ifis div 2) + 1] \<Longrightarrow>
      (real (length ifis) - real l) *
        (if variance (centerZ ifis) \<noteq> 0 then variance (centerZ ifis) else 1 / 10 ^ 12) \<noteq> 0"
    using assms by auto
  then show ?thesis
    unfolding probe_acf_def autocorr_def Let_def len acf_value_def
    by (intro map_cong refl) (simp add: js_div_def len)
qed

text \<open>
  C8, amended. For an interval series of length \<open>N \<ge> 2\<close> and \<open>L = min 60 (N div 2)\<close>, the
  best lag lies in \<open>1 .. L\<close>, the autocorrelation there is a finite number, it is the
  value \<open>acfMax\<close>, and it is at least the autocorrelation at every lag in \<open>1 .. L\<close>. A
  returned report holds this lag and the value rounded to 6 decimals.
\<close>

theorem best_lag_argmax:
  assumes "2 \<le> length ifis"
  shows "1 \<le> probe_acfMaxLag ifis \<and> probe_acfMaxLag ifis \<le> min 60 (length ifis div 2) \<and>
         (\<exists>c. probe_acf ifis ! probe_acfMaxLag ifis = Num c \<and> probe_acfMax ifis = Num c \<and>
              (\<forall>l. 1 \<le> l \<and> l \<le> min 60 (length ifis div 2) \<longrightarrow>
                   (\<exists>v. probe_acf ifis ! l = Num v \<and> v \<le> c))) \<and>
         (\<forall>r. probe_report u fps (samples, vtimes) = Returns r \<longrightarrow>
              bestLag (acf (ifi r)) = probe_acfMaxLag (diffs_js samples) \<and>
              bestCorr (acf (ifi r)) = round_js (probe_acfMax (diffs_js samples)) 6)"
proof -
  define L where "L = min 60 (length ifis div 2)"
  define g where "g = acf_value (centerZ ifis)"
  define vs where "vs = map g [1..<L + 1]"
  have L1: "1 \<le> L" using assms by (simp add: L_def)
  have acf: "probe_acf ifis = map (\<lambda>l. Num (g l)) [0..<L + 1]"
    using probe_acf_Num [OF assms] by (simp add: L_def g_def)
  have dr: "drop 1 (probe_acf ifis) = map Num vs"
    by (simp add: acf vs_def drop_map)
  have ne: "vs \<noteq> []" using L1 by (simp add: vs_def)
  have lvs: "length vs = L" by (simp add: vs_def)
  define a where "a = argmax (map Num vs)"
  have a: "a < L" "\<forall>k<L. vs ! k \<le> vs ! a"
    using argmax_Num [OF ne] by (simp_all add: a_def lvs)
  have k: "probe_acfMaxLag ifis = a + 1"
    unfolding probe_acfMaxLag_def dr a_def by simp
  have nth: "\<And>l. l \<le> L \<Longrightarrow> probe_acf ifis ! l = Num (g l)"
    by (simp add: acf nth_map_upt del: upt_Suc)
  have vnth: "\<And>j. j < L \<Longrightarrow> vs ! j = g (j + 1)"
    by (simp add: vs_def nth_map_upt del: upt_Suc)
  have r1: "1 \<le> probe_acfMaxLag ifis \<and> probe_acfMaxLag ifis \<le> L"
    using a(1) k by simp
  have r2: "probe_acf ifis ! probe_acfMaxLag ifis = Num (g (a + 1))"
    using nth [of "a + 1"] a(1) k by simp
  have "length (probe_acf ifis) = L + 1" by (simp add: acf)
  then have r3: "probe_acfMax ifis = Num (g (a + 1))"
    using r2 a(1) k by (simp add: probe_acfMax_def Let_def)
  have r4: "\<forall>l. 1 \<le> l \<and> l \<le> L \<longrightarrow> (\<exists>v. probe_acf ifis ! l = Num v \<and> v \<le> g (a + 1))"
  proof (intro allI impI)
    fix l assume l: "1 \<le> l \<and> l \<le> L"
    then have l1: "l - 1 < L" by linarith
    then have "vs ! (l - 1) \<le> vs ! a" using a(2) by blast
    moreover have "vs ! (l - 1) = g l" using vnth [OF l1] l by simp
    moreover have "vs ! a = g (a + 1)" using vnth [OF a(1)] .
    ultimately have "g l \<le> g (a + 1)" by simp
    then show "\<exists>v. probe_acf ifis ! l = Num v \<and> v \<le> g (a + 1)"
      using nth [of l] l by simp
  qed
  have r5: "\<forall>r. probe_report u fps (samples, vtimes) = Returns r \<longrightarrow>
              bestLag (acf (ifi r)) = probe_acfMaxLag (diffs_js samples) \<and>
              bestCorr (acf (ifi r)) = round_js (probe_acfMax (diffs_js samples)) 6"
  proof (intro allI impI)
    fix r assume "probe_report u fps (samples, vtimes) = Returns r"
    then obtain pk where "r = make_report u fps (samples, vtimes) pk"
      using probe_report_Returns by blast
    then show "bestLag (acf (ifi r)) = probe_acfMaxLag (diffs_js samples) \<and>
              bestCorr (acf (ifi r)) = round_js (probe_acfMax (diffs_js samples)) 6"
      by (simp add: make_report_def Let_def)
  qed
  show ?thesis
    using r1 r2 r3 r4 r5 unfolding L_def [symmetric] by blast
qed

lemma ex_acf: "probe_acf [1, 2, 1, 2] = [Num (3 / 4), Num (- 3 / 4), Num (3 / 4)]"
  by (simp add: probe_acf_def centerZ_def mean_def autocorr_def variance_def js_div_def Let_def
      upt_rec)

lemma ex_lag: "probe_acfMaxLag [1, 2, 1, 2] = 2"
  by (simp add: probe_acfMaxLag_def ex_acf argmax_def)

theorem best_lag_argmax_witness:
  "2 \<le> length [1, 2, 1, 2 :: real] \<and> probe_acfMaxLag [1, 2, 1, 2] = 2 \<and>
   probe_acfMax [1, 2, 1, 2] = Num (3 / 4) \<and> probe_acf [1, 2, 1, 2] ! 1 = Num (- 3 / 4) \<and>
   (\<exists>r. probe_report True 30 ([0, 1, 3, 4, 6], [0, 0, 0, 0, 0]) = Returns r \<and>
        bestLag (acf (ifi r)) = 2)"
proof -
  obtain r where r: "probe_report True 30 ([0, 1, 3, 4, 6], [0, 0, 0, 0, 0]) = Returns r"
    using probe_report_returns [of "[0, 1, 3, 4, 6]" True 30 "[0, 0, 0, 0, 0]"] by auto
  have i: "diffs_js [0, 1, 3, 4, 6] = [1, 2, 1, 2]"
    by (simp add: diffs_js_def upt_rec)
  have "bestLag (acf (ifi r)) = 2"
    using best_lag_argmax [of "[1, 2, 1, 2]" True 30 "[0, 1, 3, 4, 6]" "[0, 0, 0, 0, 0]"] r
    by (simp add: i ex_lag)
  then show ?thesis
    using best_lag_argmax [of "[1, 2, 1, 2]" True 30 "[]" "[]"] ex_acf ex_lag r
    by (simp add: probe_acfMax_def)
qed

text \<open>
  For a series of one interval \<open>L\<close> is 0, no lag is searched and the best lag is 1,
  outside \<open>1 .. L\<close>.
\<close>

theorem best_lag_range_counterexample:
  "\<not> (1 \<le> probe_acfMaxLag [33] \<and> probe_acfMaxLag [33] \<le> min 60 (length [33 :: real] div 2))"
  by (simp add: probe_acfMaxLag_def probe_acf_def centerZ_def mean_def autocorr_def
      variance_def js_div_def argmax_def)

section \<open>The spectrum and its peak\<close>

lemma dominant_loop_max:
  assumes "bestK < k" "k \<le> length mag" "best = mag ! bestK" "\<forall>j<k. mag ! j \<le> best"
    "bestK = 0 \<or> 0 < best" "0 \<le> best"
  shows "case dominant_loop mag k (bestK, best) of
           (bK, b) \<Rightarrow> bK < length mag \<and> b = mag ! bK \<and> (\<forall>j<length mag. mag ! j \<le> b) \<and>
                      (bK = 0 \<or> 0 < b)"
  using assms
proof (induction "length mag - k" arbitrary: k bestK best)
  case 0
  then have "k = length mag" by simp
  then have "dominant_loop mag k (bestK, best) = (bestK, best)"
    by (subst dominant_loop.simps) simp
  then show ?case using 0 by simp
next
  case (Suc d)
  then have lt: "k < length mag" by simp
  define bK' where "bK' = (if best < mag ! k then k else bestK)"
  define b' where "b' = (if best < mag ! k then mag ! k else best)"
  have step: "dominant_loop mag k (bestK, best) = dominant_loop mag (k + 1) (bK', b')"
    using lt by (subst dominant_loop.simps) (simp add: bK'_def b'_def)
  have inv: "\<forall>j<k + 1. mag ! j \<le> b'"
  proof (intro allI impI)
    fix j assume "j < k + 1"
    then consider "j < k" | "j = k" by linarith
    then show "mag ! j \<le> b'"
    proof cases
      case 1
      then have "mag ! j \<le> best" using Suc.prems(4) by simp
      then show ?thesis by (simp add: b'_def)
    next
      case 2
      then show ?thesis by (simp add: b'_def)
    qed
  qed
  have "bK' < k + 1" using Suc.prems(1) by (simp add: bK'_def)
  moreover have "k + 1 \<le> length mag" using lt by simp
  moreover have "b' = mag ! bK'" using Suc.prems(3) by (simp add: bK'_def b'_def)
  moreover have "bK' = 0 \<or> 0 < b'" using Suc.prems(5,6) by (auto simp: bK'_def b'_def)
  moreover have "0 \<le> b'" using Suc.prems(6) by (simp add: b'_def)
  moreover have "d = length mag - (k + 1)" using Suc.hyps(2) by simp
  ultimately show ?case
    using Suc.hyps(1) [of "k + 1" bK' b'] inv step by simp
qed

lemma dominantFrequency_peak:
  assumes z: "mag ! 0 = 0" and nn: "\<forall>k<length mag. 0 \<le> mag ! k" and ne: "mag \<noteq> []"
  shows "\<exists>bestK<length mag.
           (\<forall>k<length mag. mag ! k \<le> mag ! bestK) \<and>
           (1 \<le> bestK \<or> (\<forall>k<length mag. mag ! k = 0)) \<and>
           pk_freq (dominantFrequency mag fps) =
             Num (real bestK * (if fps \<noteq> 0 then fps else 30) / real (2 * length mag)) \<and>
           pk_strength (dominantFrequency mag fps) =
             Num (mag ! bestK / (sum_list mag + 1 / 10 ^ 9))"
proof -
  obtain bK b where db: "dominant_loop mag 1 (0, 0) = (bK, b)"
    by (cases "dominant_loop mag 1 (0, 0)")
  have l1: "1 \<le> length mag" using ne by (simp add: Suc_le_eq)
  have "case dominant_loop mag 1 (0, 0) of
          (bK, b) \<Rightarrow> bK < length mag \<and> b = mag ! bK \<and> (\<forall>j<length mag. mag ! j \<le> b) \<and>
                     (bK = 0 \<or> 0 < b)"
    using l1 z by (intro dominant_loop_max) simp_all
  then have p: "bK < length mag" "b = mag ! bK" "\<forall>j<length mag. mag ! j \<le> b" "bK = 0 \<or> 0 < b"
    unfolding db by auto
  have zero: "1 \<le> bK \<or> (\<forall>k<length mag. mag ! k = 0)"
  proof (cases "bK = 0")
    case True
    then have "\<forall>k<length mag. mag ! k \<le> 0" using p(2,3) z by simp
    then show ?thesis using nn by (meson order_antisym)
  next
    case False
    then show ?thesis by simp
  qed
  have "0 \<le> sum_list mag"
    using nn by (intro sum_list_nonneg) (auto simp: in_set_conv_nth)
  then have den: "foldl (\<lambda>s x. s + x) 0 mag + 1 / 10 ^ 9 \<noteq> 0"
    by (simp add: foldl_add_sum_list add_nonneg_eq_0_iff)
  have N: "real (length mag * 2) \<noteq> 0" using ne by simp
  have f: "pk_freq (dominantFrequency mag fps) =
             Num (real bK * (if fps \<noteq> 0 then fps else 30) / real (2 * length mag))"
    using N unfolding dominantFrequency_def Let_def db by (simp add: js_div_def mult.commute)
  have s: "pk_strength (dominantFrequency mag fps) = Num (mag ! bK / (sum_list mag + 1 / 10 ^ 9))"
    using den unfolding dominantFrequency_def Let_def db
    by (simp add: js_div_def p(2) foldl_add_sum_list)
  show ?thesis
    using p(1) p(3) zero f s unfolding p(2) by blast
qed

text \<open>The four-point transform of \<open>1, 0, -1, 0\<close>, step by step.\<close>

lemma fft_size_4: "fft_size 4 = 4"
proof -
  have "ceillog2 4 = 2" by (rule ceillog2_eqI) simp_all
  then show ?thesis using fft_size_pow [of 4] by simp
qed

lemma bitrev4: "bit_reversal ([1, 0, - 1, 0], [0, 0, 0, 0]) = ([1, - 1, 0, 0], [0, 0, 0, 0])"
  by (simp add: bit_reversal_def bitrev_step_def swap_def Let_def upt_rec bitrev_carry.simps)

lemma stage2: "block_loop 4 2 (- 1) 0 0 ([1, - 1, 0, 0], [0, 0, 0, 0]) = ([0, 2, 0, 0], [0, 0, 0, 0])"
  by (simp add: block_loop.simps butterfly_def Let_def)

lemma upt_0_2: "[0..<2] = [0, 1]"
  by (simp add: numeral_2_eq_2)

lemma stage4: "block_loop 4 4 0 (- 1) 0 ([0, 2, 0, 0], [0, 0, 0, 0]) = ([0, 2, 0, 2], [0, 0, 0, 0])"
  by (simp add: block_loop.simps butterfly_def Let_def upt_0_2)

lemma len4: "length [a, b, c, d] = 4"
  by simp

lemma shl_small: "js_shl 2 (Suc 0) = 4" "js_shl 4 (Suc 0) = 8"
  by (simp_all add: js_shl_def wrap32_def)

lemma fft4: "fft ([1, 0, - 1, 0], [0, 0, 0, 0]) = Some ([0, 2, 0, 2], [0, 0, 0, 0])"
proof -
  have "stage_loop 4 8 ([0, 2, 0, 2], [0, 0, 0, 0]) = Some ([0, 2, 0, 2], [0, 0, 0, 0])"
    by (subst stage_loop.simps) simp
  then have "stage_loop 4 4 ([0, 2, 0, 0], [0, 0, 0, 0]) = Some ([0, 2, 0, 2], [0, 0, 0, 0])"
    by (subst stage_loop.simps) (simp add: stage4 shl_small)
  then have st: "stage_loop 4 2 ([1, - 1, 0, 0], [0, 0, 0, 0]) = Some ([0, 2, 0, 2], [0, 0, 0, 0])"
    by (subst stage_loop.simps) (simp add: stage2 shl_small)
  show ?thesis
    unfolding fft_def Let_def fst_conv len4 bitrev4 by (rule st)
qed

lemma mag4: "magnitudeFFT [1, 0, - 1, 0] = Returns [0, 2]"
proof -
  have pad: "[1, 0, - 1, 0] @ replicate (nat 4 - 4) 0 = [1, 0, - 1, 0 :: real]" by simp
  have z: "replicate (nat 4) (0 :: real) = [0, 0, 0, 0]" by (simp add: numeral_eq_Suc)
  have idx: "[0..<nat 4 div 2] = [0, 1]" by (simp add: upt_0_2)
  show ?thesis
    unfolding magnitudeFFT_def Let_def len4 fft_size_4 pad z fft4 idx by simp
qed

lemma dom4: "dominantFrequency [0, 2] 0 =
    \<lparr> pk_freq = Num (15 / 2), pk_strength = Num (2 / (2 + 1 / 10 ^ 9)) \<rparr>"
  by (simp add: dominantFrequency_def dominant_loop.simps js_div_def)

text \<open>Beyond \<open>2^29\<close> entries: no return on \<open>2^30\<close> points, a negative size above.\<close>

lemma fft_size_wraps: "fft_size (2 ^ 30 + 1) = - 2147483648"
proof -
  have c: "ceillog2 (2 ^ 30 + 1) = 31" by (rule ceillog2_eqI) simp_all
  have "nat \<lceil>log 2 (real (max 2 (2 ^ 30 + 1)))\<rceil> = ceillog2 (2 ^ 30 + 1)"
    by (simp add: ceillog2_def)
  then show ?thesis unfolding fft_size_def c by (simp add: js_shl_1_31)
qed

lemma magnitudeFFT_throws:
  assumes "length arr = 2 ^ 30 + 1"
  shows "magnitudeFFT arr = Throws RangeError"
  unfolding magnitudeFFT_def Let_def assms fft_size_wraps by simp

lemma magnitudeFFT_hangs:
  assumes "length arr = 2 ^ 30"
  shows "magnitudeFFT arr = NeverReturns"
proof -
  have m: "max 2 ((2 :: nat) ^ 30) = 2 ^ 30" by simp
  have c: "ceillog2 (2 ^ 30) = 30" by (rule ceillog2_2_power)
  have "fft_size (2 ^ 30) = 2 ^ ceillog2 (max 2 (2 ^ 30))"
    by (rule fft_size_pow) simp
  then have fs: "fft_size (2 ^ 30) = 2 ^ 30" unfolding m c .
  define re where "re = arr @ replicate (nat (2 ^ 30) - 2 ^ 30) 0"
  define im where "im = replicate (nat (2 ^ 30)) (0 :: real)"
  have "length (fst (re, im)) = 2 ^ 30" by (simp add: re_def assms)
  then have "fft (re, im) = None"
    unfolding fft_def Let_def using stage_loop_hangs [of 1 "bit_reversal (re, im)"] by simp
  then show ?thesis
    unfolding magnitudeFFT_def Let_def assms fs re_def [symmetric] im_def [symmetric]
    by simp
qed

text \<open>
  C4, amended. For a series of length \<open>N\<close> up to \<open>2^29\<close>, \<open>magnitudeFFT\<close> works on \<open>n\<close>
  points, where \<open>n\<close> is the least power of two that is at least \<open>max 2 N\<close>: the real part
  is the series followed by zeros, the imaginary part is zero, the transform returns, and
  the result holds the magnitudes of the transform at the bins below \<open>n / 2\<close>, with bin 0
  left at zero. \<open>dominantFrequency\<close> picks a bin \<open>bestK\<close> of greatest magnitude among the
  bins \<open>1 .. n/2 - 1\<close> (bin 0 only when all of them are zero), and returns
  \<open>bestK * sampleRate / n\<close> and the magnitude of that bin divided by the sum of all
  magnitudes plus \<open>1e-9\<close>. The sample rate is the frame rate handed over, or 30 when that
  is 0; the probe hands over its estimated frame rate, or 30 when the estimate is 0.
\<close>

theorem spectrum_peak:
  assumes "length arr \<le> 2 ^ 29"
  shows "\<exists>n re1 im1 mag.
     fft_size (length arr) = int n \<and>
     (\<exists>k. n = 2 ^ k) \<and> max 2 (length arr) \<le> n \<and> n < 2 * max 2 (length arr) \<and>
     (let re = arr @ replicate (n - length arr) 0;
          im = replicate n 0
      in length re = n \<and> (\<forall>i<n. re ! i = (if i < length arr then arr ! i else 0)) \<and>
         fft (re, im) = Some (re1, im1)) \<and>
     length re1 = n \<and> length im1 = n \<and>
     magnitudeFFT arr = Returns mag \<and>
     mag = map (\<lambda>k. if k = 0 then 0 else sqrt ((re1 ! k)\<^sup>2 + (im1 ! k)\<^sup>2)) [0..<n div 2] \<and>
     (\<exists>bestK<n div 2.
        (\<forall>k. 1 \<le> k \<and> k < n div 2 \<longrightarrow> mag ! k \<le> mag ! bestK) \<and>
        (1 \<le> bestK \<or> (\<forall>k<n div 2. mag ! k = 0)) \<and>
        pk_freq (dominantFrequency mag fps) =
          Num (real bestK * (if fps \<noteq> 0 then fps else 30) / real n) \<and>
        pk_strength (dominantFrequency mag fps) =
          Num (mag ! bestK / (sum_list mag + 1 / 10 ^ 9))) \<and>
     (\<forall>mg. magnitudeFFT (centerZ ifis) = Returns mg \<longrightarrow>
        probe_peak ifis =
          Returns (dominantFrequency mg
                     (if probe_fpsEst ifis \<noteq> 0 then probe_fpsEst ifis else 30)))"
proof -
  define N where "N = length arr"
  obtain n re1 im1 where n: "n = 2 ^ ceillog2 (max 2 N)" and fs: "fft_size N = int n"
    and ff: "fft (arr @ replicate (n - N) 0, replicate n 0) = Some (re1, im1)"
    and len: "length re1 = n" "length im1 = n"
    and mg: "magnitudeFFT arr =
      Returns (map (\<lambda>k. if k = 0 then 0 else sqrt ((re1 ! k)\<^sup>2 + (im1 ! k)\<^sup>2)) [0..<n div 2])"
    using magnitudeFFT_returns [OF assms] unfolding N_def by blast
  define mag where
    "mag = map (\<lambda>k. if k = 0 then 0 else sqrt ((re1 ! k)\<^sup>2 + (im1 ! k)\<^sup>2)) [0..<n div 2]"
  define re where "re = arr @ replicate (n - N) 0"
  define im where "im = replicate n (0 :: real)"
  have pw: "(\<exists>k. n = 2 ^ k) \<and> max 2 N \<le> n \<and> n < 2 * max 2 N"
    using next_power [of N] unfolding n by blast
  then have Nn: "N \<le> n" by simp
  have lre: "length re = n" using Nn by (simp add: re_def N_def)
  have nre: "\<forall>i<n. re ! i = (if i < N then arr ! i else 0)"
    by (simp add: re_def N_def nth_append)
  have lm: "length mag = n div 2" by (simp add: mag_def)
  have n2: "2 * length mag = n" unfolding lm n by (rule next_power_even)
  have "2 \<le> n" using pw by simp
  then have pos: "0 < length mag" using n2 by linarith
  then have ne: "mag \<noteq> []" by simp
  have z: "mag ! 0 = 0" using pos unfolding lm by (simp add: mag_def)
  have nn: "\<forall>k<length mag. 0 \<le> mag ! k"
    unfolding lm by (simp add: mag_def)
  obtain bestK where b: "bestK < length mag" "\<forall>k<length mag. mag ! k \<le> mag ! bestK"
    "1 \<le> bestK \<or> (\<forall>k<length mag. mag ! k = 0)"
    "pk_freq (dominantFrequency mag fps) =
       Num (real bestK * (if fps \<noteq> 0 then fps else 30) / real (2 * length mag))"
    "pk_strength (dominantFrequency mag fps) = Num (mag ! bestK / (sum_list mag + 1 / 10 ^ 9))"
    using dominantFrequency_peak [OF z nn ne, of fps] by blast
  have pk: "\<exists>bestK<n div 2.
          (\<forall>k. 1 \<le> k \<and> k < n div 2 \<longrightarrow> mag ! k \<le> mag ! bestK) \<and>
          (1 \<le> bestK \<or> (\<forall>k<n div 2. mag ! k = 0)) \<and>
          pk_freq (dominantFrequency mag fps) =
            Num (real bestK * (if fps \<noteq> 0 then fps else 30) / real n) \<and>
          pk_strength (dominantFrequency mag fps) =
            Num (mag ! bestK / (sum_list mag + 1 / 10 ^ 9))"
    using b(1,2,3,5) b(4) [unfolded n2] unfolding lm by blast
  have pp: "\<forall>mg. magnitudeFFT (centerZ ifis) = Returns mg \<longrightarrow>
        probe_peak ifis =
          Returns (dominantFrequency mg
                     (if probe_fpsEst ifis \<noteq> 0 then probe_fpsEst ifis else 30))"
    by (simp add: probe_peak_def)
  have arrays: "length re = n \<and> (\<forall>i<n. re ! i = (if i < N then arr ! i else 0)) \<and>
         fft (re, im) = Some (re1, im1)"
    using lre nre ff unfolding re_def im_def by blast
  have all: "fft_size N = int n \<and>
     (\<exists>k. n = 2 ^ k) \<and> max 2 N \<le> n \<and> n < 2 * max 2 N \<and>
     (length re = n \<and> (\<forall>i<n. re ! i = (if i < N then arr ! i else 0)) \<and>
         fft (re, im) = Some (re1, im1)) \<and>
     length re1 = n \<and> length im1 = n \<and>
     magnitudeFFT arr = Returns mag \<and>
     mag = map (\<lambda>k. if k = 0 then 0 else sqrt ((re1 ! k)\<^sup>2 + (im1 ! k)\<^sup>2)) [0..<n div 2] \<and>
     (\<exists>bestK<n div 2.
        (\<forall>k. 1 \<le> k \<and> k < n div 2 \<longrightarrow> mag ! k \<le> mag ! bestK) \<and>
        (1 \<le> bestK \<or> (\<forall>k<n div 2. mag ! k = 0)) \<and>
        pk_freq (dominantFrequency mag fps) =
          Num (real bestK * (if fps \<noteq> 0 then fps else 30) / real n) \<and>
        pk_strength (dominantFrequency mag fps) =
          Num (mag ! bestK / (sum_list mag + 1 / 10 ^ 9))) \<and>
     (\<forall>mg. magnitudeFFT (centerZ ifis) = Returns mg \<longrightarrow>
        probe_peak ifis =
          Returns (dominantFrequency mg
                     (if probe_fpsEst ifis \<noteq> 0 then probe_fpsEst ifis else 30)))"
    using fs pw arrays len mg [folded mag_def] mag_def pk pp by (intro conjI) blast+
  show ?thesis
    unfolding Let_def
    using all unfolding re_def im_def N_def by blast
qed

theorem spectrum_peak_witness:
  "length [1, 0, - 1, 0 :: real] \<le> 2 ^ 29 \<and> fft_size 4 = 4 \<and>
   magnitudeFFT [1, 0, - 1, 0] = Returns [0, 2] \<and>
   pk_freq (dominantFrequency [0, 2] 0) = Num (15 / 2) \<and>
   pk_strength (dominantFrequency [0, 2] 0) = Num (2 / (2 + 1 / 10 ^ 9))"
proof -
  have h: "length [1, 0, - 1, 0 :: real] \<le> 2 ^ 29" by simp
  obtain n mag where n: "fft_size (length [1, 0, - 1, 0 :: real]) = int n"
    and m: "magnitudeFFT [1, 0, - 1, 0] = Returns mag"
    and p: "\<exists>bestK<n div 2.
        (\<forall>k. 1 \<le> k \<and> k < n div 2 \<longrightarrow> mag ! k \<le> mag ! bestK) \<and>
        (1 \<le> bestK \<or> (\<forall>k<n div 2. mag ! k = 0)) \<and>
        pk_freq (dominantFrequency mag 0) =
          Num (real bestK * (if (0 :: real) \<noteq> 0 then 0 else 30) / real n) \<and>
        pk_strength (dominantFrequency mag 0) =
          Num (mag ! bestK / (sum_list mag + 1 / 10 ^ 9))"
    using spectrum_peak [OF h, of 0 "[]"] by blast
  have n4: "n = 4" using n unfolding len4 fft_size_4 by simp
  have mg: "mag = [0, 2]" using m unfolding mag4 by simp
  obtain bestK where b: "bestK < (4 :: nat) div 2"
    "\<forall>k. 1 \<le> k \<and> k < (4 :: nat) div 2 \<longrightarrow> [0, 2 :: real] ! k \<le> [0, 2] ! bestK"
    "pk_freq (dominantFrequency [0, 2] 0) =
       Num (real bestK * (if (0 :: real) \<noteq> 0 then 0 else 30) / real (4 :: nat))"
    "pk_strength (dominantFrequency [0, 2] 0) =
       Num ([0, 2] ! bestK / (sum_list [0, 2] + 1 / 10 ^ 9))"
    using p unfolding n4 mg by blast
  have "[0, 2 :: real] ! 1 \<le> [0, 2] ! bestK" using b(2) [rule_format, of 1] by simp
  moreover have "bestK = 0 \<or> bestK = 1" using b(1) by auto
  ultimately have k: "bestK = 1" by auto
  show ?thesis
    using b(3,4) h unfolding k by (simp add: mag4 fft_size_4)
qed

text \<open>
  Without the bound on \<open>N\<close> the claim fails: for \<open>2^30 + 1\<close> entries the size is
  \<open>1 << 31\<close>, which is negative, and creating the array throws.
\<close>

theorem spectrum_size_counterexample:
  "magnitudeFFT (replicate (2 ^ 30 + 1) 0) = Throws RangeError"
  by (rule magnitudeFFT_throws) (rule length_replicate)

end
